theory Spec2Isabelle
  imports Main "HOL-Library.Sublist" "HOL-Library.Multiset"
begin

section \<open>Strings as the program uses them\<close>

text \<open>
  A JavaScript string is modelled as a \<open>string\<close> (a list of \<open>char\<close>); the model is
  exact for ASCII text, which is what the path and extension logic of the tool
  inspects. \<open>toLowerCase\<close> lowers the letters \<open>A\<close> to \<open>Z\<close> and leaves every
  other character as it is.
\<close>

definition lower_char :: "char \<Rightarrow> char" where
  "lower_char c =
     (let n = (of_char c :: nat) in if 65 \<le> n \<and> n \<le> 90 then char_of (n + 32) else c)"

definition toLowerCase :: "string \<Rightarrow> string" where
  "toLowerCase s = map lower_char s"

text \<open>\<open>s.split(c)\<close> for a one-character separator: never the empty list.\<close>

fun js_split :: "char \<Rightarrow> string \<Rightarrow> string list" where
  "js_split c [] = [[]]"
| "js_split c (x # xs) =
     (case js_split c xs of
        [] \<Rightarrow> (if x = c then [[], []] else [[x]])
      | y # ys \<Rightarrow> (if x = c then [] # y # ys else (x # y) # ys))"

text \<open>\<open>parts.join(s)\<close>.\<close>

fun js_join :: "string \<Rightarrow> string list \<Rightarrow> string" where
  "js_join s [] = []"
| "js_join s [x] = x"
| "js_join s (x # y # ys) = x @ s @ js_join s (y # ys)"

text \<open>\<open>s.includes(pat)\<close>: \<open>pat\<close> occurs in \<open>s\<close> as a contiguous substring.\<close>

fun includes_str :: "string \<Rightarrow> string \<Rightarrow> bool" where
  "includes_str [] pat = (pat = [])"
| "includes_str (x # xs) pat = (prefix pat (x # xs) \<or> includes_str xs pat)"

text \<open>\<open>s.endsWith(t)\<close>.\<close>

definition endsWith :: "string \<Rightarrow> string \<Rightarrow> bool" where
  "endsWith s t = suffix t s"

section \<open>The POSIX variant of Node's \<open>path\<close> module\<close>

text \<open>
  The tool calls \<open>path.extname\<close>, \<open>path.basename\<close>, \<open>path.dirname\<close>,
  \<open>path.relative\<close>, \<open>path.join\<close>, \<open>path.resolve\<close> and \<open>path.sep\<close>. They are
  library functions; the definitions below follow the POSIX implementation,
  where the separator is the slash. A path is cut into its non-empty segments;
  normalisation drops \<open>.\<close> segments and resolves \<open>..\<close> against the segment before.
\<close>

definition path_sep :: char where
  "path_sep = CHR ''/''"

definition segments :: "string \<Rightarrow> string list" where
  "segments p = filter (\<lambda>s. s \<noteq> []) (js_split path_sep p)"

definition isAbsolute :: "string \<Rightarrow> bool" where
  "isAbsolute p = (p \<noteq> [] \<and> hd p = path_sep)"

text \<open>The last portion of a path, trailing separators ignored; empty if there is none.\<close>

definition last_portion :: "string \<Rightarrow> string" where
  "last_portion p = (if segments p = [] then [] else last (segments p))"

text \<open>
  \<open>normalizeString\<close>: the accumulator holds the segments kept so far. A \<open>..\<close>
  removes the segment before it, unless there is none or it is itself \<open>..\<close>; then
  it is kept when the path is relative (\<open>allowAboveRoot\<close>) and dropped otherwise.
\<close>

fun norm_segs :: "bool \<Rightarrow> string list \<Rightarrow> string list \<Rightarrow> string list" where
  "norm_segs allowAboveRoot acc [] = acc"
| "norm_segs allowAboveRoot acc (s # ss) =
     (if s = ''.'' then norm_segs allowAboveRoot acc ss
      else if s = ''..'' then
        (if acc \<noteq> [] \<and> last acc \<noteq> ''..'' then norm_segs allowAboveRoot (butlast acc) ss
         else if allowAboveRoot then norm_segs allowAboveRoot (acc @ [''..'']) ss
         else norm_segs allowAboveRoot acc ss)
      else norm_segs allowAboveRoot (acc @ [s]) ss)"

definition path_normalize :: "string \<Rightarrow> string" where
  "path_normalize p =
     (if p = [] then ''.''
      else
        (let isAbs = isAbsolute p;
             trailingSeparator = (last p = path_sep);
             body = js_join ''/'' (norm_segs (\<not> isAbs) [] (segments p))
         in if body = [] then (if isAbs then ''/'' else if trailingSeparator then ''./'' else ''.'')
            else (if isAbs then ''/'' else []) @ body @ (if trailingSeparator then ''/'' else [])))"

definition path_join :: "string list \<Rightarrow> string" where
  "path_join args =
     (let parts = filter (\<lambda>a. a \<noteq> []) args
      in if parts = [] then ''.'' else path_normalize (js_join ''/'' parts))"

text \<open>
  \<open>path.resolve(p)\<close> with the working directory \<open>cwd\<close> of the process (an absolute
  path): an absolute \<open>p\<close> is normalised, a relative one is taken under \<open>cwd\<close>; the
  result has no trailing separator.
\<close>

definition path_resolve :: "string \<Rightarrow> string \<Rightarrow> string" where
  "path_resolve cwd p =
     ''/'' @ js_join ''/'' (norm_segs False [] (segments (if isAbsolute p then p else cwd @ ''/'' @ p)))"

fun strip_common :: "string list \<Rightarrow> string list \<Rightarrow> string list \<times> string list" where
  "strip_common (x # xs) (y # ys) = (if x = y then strip_common xs ys else (x # xs, y # ys))"
| "strip_common xs ys = (xs, ys)"

text \<open>
  \<open>path.relative(from, to)\<close>: both are resolved, their common leading segments are
  dropped, every segment left of \<open>from\<close> becomes \<open>..\<close>, and what is left of \<open>to\<close>
  follows.
\<close>

definition path_relative :: "string \<Rightarrow> string \<Rightarrow> string \<Rightarrow> string" where
  "path_relative cwd from to =
     (if from = to then []
      else
        (let f = path_resolve cwd from; t = path_resolve cwd to
         in if f = t then []
            else (case strip_common (segments f) (segments t) of
                    (fr, tr) \<Rightarrow> js_join ''/'' (replicate (length fr) ''..'' @ tr))))"

text \<open>
  \<open>path.extname(p)\<close>: from the last dot of the last portion to its end; empty when
  there is no dot, when the only dot is the first character, or when the portion
  is \<open>..\<close>.
\<close>

fun last_dot :: "string \<Rightarrow> nat option" where
  "last_dot [] = None"
| "last_dot (c # cs) =
     (case last_dot cs of
        Some i \<Rightarrow> Some (Suc i)
      | None \<Rightarrow> if c = CHR ''.'' then Some 0 else None)"

definition path_extname :: "string \<Rightarrow> string" where
  "path_extname p =
     (let b = last_portion p
      in case last_dot b of
           None \<Rightarrow> []
         | Some d \<Rightarrow> if d = 0 \<or> b = ''..'' then [] else drop d b)"

text \<open>
  \<open>path.basename(p, suffix)\<close>: the last portion of \<open>p\<close>, without \<open>suffix\<close> when the
  portion ends with it and is longer than it.
\<close>

definition path_basename :: "string \<Rightarrow> string \<Rightarrow> string" where
  "path_basename p sfx =
     (let b = last_portion p
      in if sfx \<noteq> [] \<and> sfx \<noteq> b \<and> suffix sfx b then take (length b - length sfx) b else b)"

text \<open>
  \<open>path.dirname(p)\<close>: trailing separators are skipped, then everything before the
  last separator is returned; the character at index 0 is never inspected by the
  scan, so a rooted path with nothing above gives the root.
\<close>

fun last_sep :: "string \<Rightarrow> nat option" where
  "last_sep [] = None"
| "last_sep (c # cs) =
     (case last_sep cs of
        Some i \<Rightarrow> Some (Suc i)
      | None \<Rightarrow> if c = path_sep then Some 0 else None)"

definition path_dirname :: "string \<Rightarrow> string" where
  "path_dirname p =
     (if p = [] then ''.''
      else
        (let hasRoot = (hd p = path_sep);
             scanned = rev (dropWhile (\<lambda>c. c = path_sep) (rev (tl p)))
         in case last_sep scanned of
              None \<Rightarrow> if hasRoot then ''/'' else ''.''
            | Some i \<Rightarrow> if hasRoot \<and> i = 0 then ''//'' else take (Suc i) p))"

section \<open>File selection and output paths\<close>

text \<open>\<open>extOf\<close> and \<open>baseNameNoExt\<close> of the tool.\<close>

definition extOf :: "string \<Rightarrow> string" where
  "extOf p = toLowerCase (drop 1 (path_extname p))"

definition baseNameNoExt :: "string \<Rightarrow> string" where
  "baseNameNoExt p = path_basename p (path_extname p)"

record selection =
  includeExt :: "string list"
  excludePatterns :: "string list"

text \<open>\<open>matchFile(relPath, cfg)\<close>, on the selection part of the configuration.\<close>

definition matchFile :: "string \<Rightarrow> selection \<Rightarrow> bool" where
  "matchFile relPath sel =
     (if extOf relPath \<notin> set (includeExt sel) then False
      else \<not> list_ex (\<lambda>pat. includes_str relPath pat) (excludePatterns sel))"

text \<open>
  \<open>outPathForStep\<close>. The forced extension is \<open>null\<close> or a string; \<open>forcedExt || extOf(rel)\<close>
  takes the extension of the input when the forced one is \<open>null\<close> or empty.
\<close>

definition outPathForStep ::
  "string \<Rightarrow> string \<Rightarrow> string \<Rightarrow> string \<Rightarrow> bool \<Rightarrow> string \<Rightarrow> string option \<Rightarrow> string" where
  "outPathForStep cwd inputAbs inRoot outRoot preserveTree stepSuffix forcedExt =
     (let rel = path_relative cwd inRoot inputAbs;
          dir = (if preserveTree then path_dirname rel else []);
          name = js_join ''__'' (js_split path_sep (baseNameNoExt rel));
          ext = (case forcedExt of
                   None \<Rightarrow> extOf rel
                 | Some e \<Rightarrow> if e = [] then extOf rel else e);
          filename = name @ stepSuffix @ ''.'' @ ext
      in path_join [outRoot, dir, filename])"

text \<open>
  The output path as the specification words it, for comparison with
  \<open>outPathForStep\<close>: the file name is made of the base name of the input without
  its extension, with path separators replaced by \<open>__\<close>, then the step suffix, a
  dot, and the forced extension if given, else the original extension of the
  input.
\<close>

definition original_ext :: "string \<Rightarrow> string" where
  "original_ext p = drop 1 (path_extname p)"

definition spec_outPath ::
  "string \<Rightarrow> string \<Rightarrow> string \<Rightarrow> string \<Rightarrow> bool \<Rightarrow> string \<Rightarrow> string option \<Rightarrow> string" where
  "spec_outPath cwd inputAbs inRoot outRoot preserveTree stepSuffix forcedExt =
     path_join
       [outRoot,
        if preserveTree then path_dirname (path_relative cwd inRoot inputAbs) else [],
        js_join ''__'' (js_split path_sep (baseNameNoExt inputAbs)) @ stepSuffix @ ''.'' @
          (case forcedExt of Some e \<Rightarrow> e | None \<Rightarrow> original_ext inputAbs)]"

text \<open>
  A file that \<open>walk\<close> finds lies under the root it started from: its path is
  absolute and normalised, and its segments are those of the root followed by at
  least one more.
\<close>

definition under_root :: "string \<Rightarrow> string \<Rightarrow> bool" where
  "under_root root p =
     (isAbsolute root \<and> isAbsolute p \<and> strict_prefix (segments root) (segments p) \<and>
      ''.'' \<notin> set (segments p) \<and> ''..'' \<notin> set (segments p))"

section \<open>Configuration\<close>

text \<open>
  The configuration is the parsed JSON document. A profile argument is any JSON
  value; only strings are inspected by the tool. \<open>step.suffix\<close> and \<open>step.profile\<close>
  may be missing from a step.
\<close>

datatype jsval = JStr string | JNum int | JBool bool | JNull

record step =
  step_name :: string
  step_enabled :: bool
  step_matchExt :: "string list"
  step_suffix :: "string option"
  step_profile :: "string option"

record config =
  inputDir :: string
  outputDir :: string
  selection :: selection
  pipeline :: "step list"
  profiles :: "string \<rightharpoonup> (string \<rightharpoonup> jsval list)"
  tool_pngquant :: string
  tool_mozjpeg :: string
  tool_magick :: string
  recursive :: bool
  preserveTree :: bool
  dryRun :: bool
  concurrency :: "int option"
  writePerFile :: bool
  csvPath :: string

text \<open>
  \<open>(cfg.profiles?.[step.profile]?.key) || []\<close>: a missing profile table, profile
  or entry gives the empty argument list. A missing \<open>step.profile\<close> is the property
  key \<open>undefined\<close>.
\<close>

definition profile_key :: "step \<Rightarrow> string" where
  "profile_key st = (case step_profile st of None \<Rightarrow> ''undefined'' | Some k \<Rightarrow> k)"

definition profile_args :: "config \<Rightarrow> step \<Rightarrow> string \<Rightarrow> jsval list" where
  "profile_args cfg st key =
     (case profiles cfg (profile_key st) of
        None \<Rightarrow> []
      | Some prof \<Rightarrow> (case prof key of None \<Rightarrow> [] | Some args \<Rightarrow> args))"

section \<open>Numbers as text\<close>

definition digit_char :: "int \<Rightarrow> char" where
  "digit_char d = ''0123456789'' ! nat d"

fun show_digits :: "int \<Rightarrow> string" where
  "show_digits n =
     (if n < 10 then [digit_char n] else show_digits (n div 10) @ [digit_char (n mod 10)])"

declare show_digits.simps [simp del]

definition show_nat :: "nat \<Rightarrow> string" where
  "show_nat n = show_digits (int n)"

definition show_int :: "int \<Rightarrow> string" where
  "show_int i = (if i < 0 then ''-'' @ show_digits (- i) else show_digits i)"

text \<open>
  A size is a JavaScript number holding an integer. The difference, the quotient
  and the product in \<open>pct\<close> are IEEE 754 binary64 operations: the exact result
  rounded to 53 significant bits, ties to the even significand. A number is kept
  as a fraction \<open>(num, den)\<close> of integers with \<open>0 < den\<close>; \<open>fl64\<close> is that rounding,
  for the range of normal numbers (all that sizes below \<open>2 ^ 64\<close> can reach; sizes
  below \<open>2 ^ 53\<close> and their differences are held exactly).
\<close>

text \<open>\<open>N / D\<close> rounded to the nearest integer, ties to even, for \<open>0 \<le> N\<close> and \<open>0 < D\<close>.\<close>

definition rne_div :: "int \<Rightarrow> int \<Rightarrow> int" where
  "rne_div N D =
     (let q = N div D; r = N mod D
      in if 2 * r < D then q else if D < 2 * r then q + 1 else if even q then q else q + 1)"

text \<open>The number of binary digits of a positive integer.\<close>

fun nbits :: "int \<Rightarrow> nat" where
  "nbits n = (if n \<le> 0 then 0 else Suc (nbits (n div 2)))"

declare nbits.simps [simp del]

definition fl64 :: "int \<times> int \<Rightarrow> int \<times> int" where
  "fl64 x =
     (case x of
        (num, den) \<Rightarrow>
          if num = 0 then (0, 1)
          else
            (let a = \<bar>num\<bar>;
                 e0 = int (nbits a) - int (nbits den);
                 e = (if (if 0 \<le> e0 then 2 ^ nat e0 * den \<le> a else den \<le> a * 2 ^ nat (- e0))
                      then e0 else e0 - 1);
                 sh = e - 52;
                 m = (if 0 \<le> sh then rne_div a (den * 2 ^ nat sh)
                      else rne_div (a * 2 ^ nat (- sh)) den);
                 sgn = (if num < 0 then - 1 else 1)
             in if 0 \<le> sh then (sgn * m * 2 ^ nat sh, 1) else (sgn * m, 2 ^ nat (- sh))))"

text \<open>
  \<open>x.toFixed(2)\<close> for \<open>\<bar>x\<bar> < 10 ^ 21\<close>: the integer \<open>n\<close> nearest to \<open>100 * \<bar>x\<bar>\<close>, the
  larger one on a tie, printed with at least three digits and a point before the
  last two; a minus sign in front when \<open>x < 0\<close>.
\<close>

definition toFixed2 :: "int \<times> int \<Rightarrow> string" where
  "toFixed2 x =
     (case x of
        (num, den) \<Rightarrow>
          (let n = (2 * (\<bar>num\<bar> * 100) + den) div (2 * den);
               m = show_digits n;
               m' = replicate (3 - length m) (CHR ''0'') @ m;
               k = length m'
           in (if num < 0 then ''-'' else []) @ take (k - 2) m' @ ''.'' @ drop (k - 2) m'))"

text \<open>
  \<open>((b - a) / a) * 100\<close> in that arithmetic, for \<open>a \<noteq> 0\<close>: each of the three
  operations rounds its exact result.
\<close>

definition percent_change :: "nat \<Rightarrow> nat \<Rightarrow> int \<times> int" where
  "percent_change a b =
     (case fl64 (int b - int a, 1) of
        (dn, dd) \<Rightarrow>
          (case fl64 (dn, dd * int a) of
             (qn, qd) \<Rightarrow> fl64 (qn * 100, qd)))"

text \<open>
  The same percentage without rounding of the operations, as a fraction: what
  \<open>((b - a) / a) * 100\<close> is over the rationals.
\<close>

definition exact_percent_change :: "nat \<Rightarrow> nat \<Rightarrow> int \<times> int" where
  "exact_percent_change a b = ((int b - int a) * 100, int a)"

text \<open>\<open>pct(a, b)\<close>; \<open>a\<close> may be \<open>null\<close>.\<close>

definition pct :: "nat option \<Rightarrow> nat \<Rightarrow> string" where
  "pct a b =
     (case a of
        None \<Rightarrow> []
      | Some a' \<Rightarrow> if a' = 0 then [] else toFixed2 (percent_change a' b))"

section \<open>Metrics rows\<close>

definition LF :: char where "LF = CHR 0x0A"
definition CR :: char where "CR = CHR 0x0D"

text \<open>\<open>('' + v).replaceAll(',', ' ')\<close> on a value already turned into text.\<close>

definition csv_field :: "string \<Rightarrow> string" where
  "csv_field v = map (\<lambda>c. if c = CHR '','' then CHR '' '' else c) v"

definition csv_row :: "string list \<Rightarrow> string" where
  "csv_row vs = js_join '','' (map csv_field vs)"

text \<open>\<open>v ?? ''\<close> for a size.\<close>

definition size_text :: "nat option \<Rightarrow> string" where
  "size_text v = (case v of None \<Rightarrow> [] | Some n \<Rightarrow> show_nat n)"

text \<open>\<open>s.replace(/\r?\n/g, ' ')\<close>.\<close>

fun replace_newlines :: "string \<Rightarrow> string" where
  "replace_newlines (c # d # cs) =
     (if c = CR \<and> d = LF then CHR '' '' # replace_newlines cs
      else if c = LF then CHR '' '' # replace_newlines (d # cs)
      else c # replace_newlines (d # cs))"
| "replace_newlines [c] = (if c = LF then [CHR '' ''] else [c])"
| "replace_newlines [] = []"

text \<open>\<open>JSON.stringify\<close> of a string.\<close>

definition hex_digit :: "nat \<Rightarrow> char" where
  "hex_digit d = ''0123456789abcdef'' ! d"

definition json_escape :: "char \<Rightarrow> string" where
  "json_escape c =
     (if c = CHR 0x22 then [CHR 0x5C, CHR 0x22]
      else if c = CHR 0x5C then [CHR 0x5C, CHR 0x5C]
      else if c = CHR 0x08 then [CHR 0x5C, CHR ''b'']
      else if c = CHR 0x0C then [CHR 0x5C, CHR ''f'']
      else if c = LF then [CHR 0x5C, CHR ''n'']
      else if c = CR then [CHR 0x5C, CHR ''r'']
      else if c = CHR 0x09 then [CHR 0x5C, CHR ''t'']
      else if (of_char c :: nat) < 32
        then [CHR 0x5C, CHR ''u'', CHR ''0'', CHR ''0'',
              hex_digit ((of_char c :: nat) div 16), hex_digit ((of_char c :: nat) mod 16)]
      else [c])"

definition json_stringify :: "string \<Rightarrow> string" where
  "json_stringify s = CHR 0x22 # concat (map json_escape s) @ [CHR 0x22]"

text \<open>
  The \<open>delta\<close> and \<open>deltaPct\<close> columns of a step (lines 113 and 114): empty unless
  both sizes are known.
\<close>

definition delta_text :: "nat option \<Rightarrow> nat option \<Rightarrow> string" where
  "delta_text before after =
     (case (after, before) of
        (Some a, Some b) \<Rightarrow> show_int (int a - int b)
      | _ \<Rightarrow> [])"

definition deltaPct_text :: "nat option \<Rightarrow> nat option \<Rightarrow> string" where
  "deltaPct_text before after =
     (case (after, before) of
        (Some a, Some b) \<Rightarrow> pct before a
      | _ \<Rightarrow> [])"

text \<open>The row of one step, and the terminal row of a file.\<close>

definition step_row ::
  "string \<Rightarrow> string \<Rightarrow> nat option \<Rightarrow> nat option \<Rightarrow> nat \<Rightarrow> string \<Rightarrow> string \<Rightarrow> string" where
  "step_row outFile stage before after elapsedMs status message =
     csv_row [outFile, stage, size_text before, size_text after, delta_text before after,
              deltaPct_text before after, show_nat elapsedMs, status, json_stringify message]"

definition original_row :: "string \<Rightarrow> nat option \<Rightarrow> string" where
  "original_row inputAbs origSize =
     csv_row [inputAbs, ''ORIGINAL'', size_text origSize, size_text origSize,
              ''0'', ''0.00'', [], ''ok'', []]"

text \<open>What a reader of the log sees: a line without its terminator, cut at the commas.\<close>

definition csv_fields :: "string \<Rightarrow> string list" where
  "csv_fields line = js_split (CHR '','') line"

section \<open>Effects\<close>

text \<open>
  Everything the tool does to the outside world is one of five calls. The state of
  a run is the list of the calls made so far, oldest first. What a call returns
  is given by an environment: an arbitrary function of the calls made before it
  and of its arguments, so that the theorems below hold for every file system,
  every behaviour of the external tools and every interference of other workers.
  A rejected promise is an error value with the \<open>stderr\<close> and \<open>message\<close>
  properties that the tool reads.
\<close>

record js_error =
  err_stderr :: "string option"
  err_message :: string

datatype call =
    Stat string
  | Mkdir string
  | CopyFile string string
  | ExecFile string "jsval list"
  | AppendFile string string

record env =
  cwd :: string
  stat_result :: "call list \<Rightarrow> string \<Rightarrow> nat option"
  mkdir_result :: "call list \<Rightarrow> string \<Rightarrow> js_error option"
  copy_result :: "call list \<Rightarrow> string \<Rightarrow> string \<Rightarrow> js_error option"
  exec_result :: "call list \<Rightarrow> string \<Rightarrow> jsval list \<Rightarrow> js_error + nat"
  append_result :: "call list \<Rightarrow> string \<Rightarrow> string \<Rightarrow> js_error option"

text \<open>\<open>fileSize\<close> never throws: a failed \<open>stat\<close> is \<open>null\<close>.\<close>

definition fileSize :: "env \<Rightarrow> string \<Rightarrow> call list \<Rightarrow> nat option \<times> call list" where
  "fileSize ev p h = (stat_result ev h p, h @ [Stat p])"

definition ensureDirFor :: "env \<Rightarrow> string \<Rightarrow> call list \<Rightarrow> js_error option \<times> call list" where
  "ensureDirFor ev filePath h =
     (mkdir_result ev h (path_dirname filePath), h @ [Mkdir (path_dirname filePath)])"

definition copyFile :: "env \<Rightarrow> string \<Rightarrow> string \<Rightarrow> call list \<Rightarrow> js_error option \<times> call list" where
  "copyFile ev src dst h = (copy_result ev h src dst, h @ [CopyFile src dst])"

text \<open>\<open>execFileAsync\<close>: the elapsed time when the tool succeeds, the error otherwise.\<close>

definition execFileAsync ::
  "env \<Rightarrow> string \<Rightarrow> jsval list \<Rightarrow> call list \<Rightarrow> (js_error + nat) \<times> call list" where
  "execFileAsync ev cmd args h = (exec_result ev h cmd args, h @ [ExecFile cmd args])"

definition appendCsv :: "env \<Rightarrow> string \<Rightarrow> string \<Rightarrow> call list \<Rightarrow> js_error option \<times> call list" where
  "appendCsv ev path row h =
     (append_result ev h path (row @ [LF]), h @ [AppendFile path (row @ [LF])])"

section \<open>Processing one file\<close>

text \<open>
  The loop over a profile of the \<open>imagemagick_compress\<close> step: a string ending with
  a colon becomes the format prefix, every other argument is kept.
\<close>

definition is_format_prefix :: "jsval \<Rightarrow> bool" where
  "is_format_prefix a = (case a of JStr s \<Rightarrow> endsWith s '':'' | _ \<Rightarrow> False)"

fun scan_profile :: "jsval list \<Rightarrow> string option \<Rightarrow> jsval list \<Rightarrow> string option \<times> jsval list" where
  "scan_profile [] formatPrefix cleanArgs = (formatPrefix, cleanArgs)"
| "scan_profile (a # as) formatPrefix cleanArgs =
     (case a of
        JStr s \<Rightarrow>
          if endsWith s '':'' then scan_profile as (Some s) cleanArgs
          else scan_profile as formatPrefix (cleanArgs @ [a])
      | _ \<Rightarrow> scan_profile as formatPrefix (cleanArgs @ [a]))"

text \<open>The format prefixes of a profile: its strings that end with a colon, in order.\<close>

definition format_prefixes :: "jsval list \<Rightarrow> string list" where
  "format_prefixes args = [s. JStr s \<leftarrow> args, endsWith s '':'']"

text \<open>The arguments handed to each tool.\<close>

definition pngquant_args :: "config \<Rightarrow> step \<Rightarrow> string \<Rightarrow> string \<Rightarrow> jsval list" where
  "pngquant_args cfg st outFile srcForStep =
     profile_args cfg st ''pngquant'' @ [JStr ''--output'', JStr outFile, JStr srcForStep]"

definition mozjpeg_args :: "config \<Rightarrow> step \<Rightarrow> string \<Rightarrow> string \<Rightarrow> jsval list" where
  "mozjpeg_args cfg st outFile srcForStep =
     profile_args cfg st ''mozjpeg'' @ [JStr ''-outfile'', JStr outFile, JStr srcForStep]"

definition magick_args :: "config \<Rightarrow> step \<Rightarrow> string \<Rightarrow> string \<Rightarrow> string \<Rightarrow> jsval list" where
  "magick_args cfg st inExt outFile srcForStep =
     (let profileArgs = (if inExt = ''png'' then profile_args cfg st ''imagemagick_png''
                         else profile_args cfg st ''imagemagick_jpg'')
      in case scan_profile profileArgs None [] of
           (formatPrefix, cleanArgs) \<Rightarrow>
             (let outTarget = (case formatPrefix of Some fp \<Rightarrow> fp @ outFile | None \<Rightarrow> outFile)
              in [JStr ''convert'', JStr srcForStep] @ cleanArgs @ [JStr outTarget]))"

text \<open>
  The body of the \<open>try\<close> block up to the measurement of the output: the copy of a
  dry run, or the tool chosen by the name of the step. The result is the elapsed
  time (0 for a dry run) or the error that was thrown.
\<close>

definition run_tool ::
  "env \<Rightarrow> config \<Rightarrow> step \<Rightarrow> string \<Rightarrow> string \<Rightarrow> string \<Rightarrow> call list \<Rightarrow> (js_error + nat) \<times> call list" where
  "run_tool ev cfg st inExt outFile srcForStep h =
     (if dryRun cfg then
        (case copyFile ev srcForStep outFile h of
           (None, h') \<Rightarrow> (Inr 0, h')
         | (Some e, h') \<Rightarrow> (Inl e, h'))
      else if step_name st = ''pngquant'' then
        execFileAsync ev (tool_pngquant cfg) (pngquant_args cfg st outFile srcForStep) h
      else if step_name st = ''mozjpeg'' then
        execFileAsync ev (tool_mozjpeg cfg) (mozjpeg_args cfg st outFile srcForStep) h
      else if step_name st = ''imagemagick_compress'' then
        execFileAsync ev (tool_magick cfg) (magick_args cfg st inExt outFile srcForStep) h
      else (Inl \<lparr>err_stderr = None, err_message = ''Unknown step: '' @ step_name st\<rparr>, h))"

text \<open>\<open>(e.stderr || e.message || '').replace(/\r?\n/g, ' ').slice(0, 300)\<close>.\<close>

definition diagnostic :: "js_error \<Rightarrow> string" where
  "diagnostic e =
     take 300 (replace_newlines
       (case err_stderr e of
          None \<Rightarrow> err_message e
        | Some s \<Rightarrow> if s = [] then err_message e else s))"

text \<open>The forced extension and the output file of a step (lines 63 and 64).\<close>

definition forcedExt_of :: "step \<Rightarrow> string option" where
  "forcedExt_of st = (if step_name st = ''mozjpeg'' then Some ''jpg'' else None)"

definition step_outFile :: "env \<Rightarrow> config \<Rightarrow> string \<Rightarrow> step \<Rightarrow> string" where
  "step_outFile ev cfg inputAbs st =
     outPathForStep (cwd ev) inputAbs
       (path_resolve (cwd ev) (inputDir cfg)) (path_resolve (cwd ev) (outputDir cfg))
       (preserveTree cfg) (case step_suffix st of None \<Rightarrow> [] | Some sfx \<Rightarrow> sfx) (forcedExt_of st)"

text \<open>
  The variables \<open>after\<close>, \<open>status\<close>, \<open>message\<close> and \<open>elapsedMs\<close> of an iteration,
  as they stand after the \<open>try\<close> statement: the \<open>catch\<close> clause sets the status and
  the message and leaves \<open>after\<close> and \<open>elapsedMs\<close> at their initial values.
\<close>

record outcome =
  oc_after :: "nat option"
  oc_status :: string
  oc_message :: string
  oc_elapsedMs :: nat

definition try_block ::
  "env \<Rightarrow> config \<Rightarrow> step \<Rightarrow> string \<Rightarrow> string \<Rightarrow> string \<Rightarrow> call list \<Rightarrow> outcome \<times> call list" where
  "try_block ev cfg st inExt outFile srcForStep h =
     (case run_tool ev cfg st inExt outFile srcForStep h of
        (Inl e, h') \<Rightarrow>
          (\<lparr>oc_after = None, oc_status = ''error'', oc_message = diagnostic e,
            oc_elapsedMs = 0\<rparr>, h')
      | (Inr elapsedMs, h') \<Rightarrow>
          (case fileSize ev outFile h' of
             (after, h'') \<Rightarrow>
               (\<lparr>oc_after = after, oc_status = ''ok'', oc_message = [],
                 oc_elapsedMs = elapsedMs\<rparr>, h'')))"

text \<open>The block guarded by \<open>cfg.logging.writePerFile\<close>.\<close>

definition log_step ::
  "env \<Rightarrow> config \<Rightarrow> step \<Rightarrow> string \<Rightarrow> nat option \<Rightarrow> outcome \<Rightarrow> call list \<Rightarrow> js_error option \<times> call list" where
  "log_step ev cfg st outFile before oc h =
     (if writePerFile cfg then
        appendCsv ev (csvPath cfg)
          (step_row outFile (step_name st) before (oc_after oc) (oc_elapsedMs oc) (oc_status oc)
             (oc_message oc)) h
      else (None, h))"

text \<open>
  One iteration of the loop over the pipeline. The result is \<open>Some e\<close> when an error
  leaves \<open>processOne\<close> (from \<open>ensureDirFor\<close> or \<open>appendCsv\<close>, which are outside the
  \<open>try\<close> block) and \<open>None\<close> when the loop goes on.
\<close>

definition run_step :: "env \<Rightarrow> config \<Rightarrow> string \<Rightarrow> step \<Rightarrow> call list \<Rightarrow> js_error option \<times> call list" where
  "run_step ev cfg inputAbs st h =
     (if \<not> step_enabled st then (None, h)
      else
        (let inExt = extOf inputAbs
         in if inExt \<notin> set (step_matchExt st) then (None, h)
            else
              (let outFile = step_outFile ev cfg inputAbs st
               in case ensureDirFor ev outFile h of
                    (Some e, h1) \<Rightarrow> (Some e, h1)
                  | (None, h1) \<Rightarrow>
                      (let srcForStep = inputAbs
                       in case fileSize ev srcForStep h1 of
                            (before, h2) \<Rightarrow>
                              (case try_block ev cfg st inExt outFile srcForStep h2 of
                                 (oc, h3) \<Rightarrow> log_step ev cfg st outFile before oc h3)))))"

fun run_steps :: "env \<Rightarrow> config \<Rightarrow> string \<Rightarrow> step list \<Rightarrow> call list \<Rightarrow> js_error option \<times> call list" where
  "run_steps ev cfg inputAbs [] h = (None, h)"
| "run_steps ev cfg inputAbs (st # rest) h =
     (case run_step ev cfg inputAbs st h of
        (Some e, h') \<Rightarrow> (Some e, h')
      | (None, h') \<Rightarrow> run_steps ev cfg inputAbs rest h')"

text \<open>\<open>processOne\<close>: \<open>Some e\<close> when the promise is rejected with \<open>e\<close>.\<close>

definition processOne :: "env \<Rightarrow> config \<Rightarrow> string \<Rightarrow> call list \<Rightarrow> js_error option \<times> call list" where
  "processOne ev cfg inputAbs h =
     (case fileSize ev inputAbs h of
        (origSize, h1) \<Rightarrow>
          (case run_steps ev cfg inputAbs (pipeline cfg) h1 of
             (Some e, h2) \<Rightarrow> (Some e, h2)
           | (None, h2) \<Rightarrow> appendCsv ev (csvPath cfg) (original_row inputAbs origSize) h2))"

text \<open>
  The rows appended to the file \<open>csv\<close> by a list of calls, without their
  terminators, and the calls that a run added to the history \<open>h\<close>.
\<close>

fun appended_rows :: "string \<Rightarrow> call list \<Rightarrow> string list" where
  "appended_rows csv [] = []"
| "appended_rows csv (AppendFile p d # cs) =
     (if p = csv then butlast d # appended_rows csv cs else appended_rows csv cs)"
| "appended_rows csv (c # cs) = appended_rows csv cs"

text \<open>The rows that an iteration for the step \<open>st\<close> can write.\<close>

definition step_rows :: "step \<Rightarrow> string set" where
  "step_rows st =
     {r. \<exists>outFile before after elapsedMs status message.
           r = step_row outFile (step_name st) before after elapsedMs status message}"

definition new_calls :: "call list \<Rightarrow> call list \<Rightarrow> call list" where
  "new_calls h h' = drop (length h) h'"

text \<open>
  The file a call reads: the source of a copy, the last argument of \<open>pngquant\<close>
  and \<open>mozjpeg\<close> (after the output option and the output file), the argument
  after \<open>convert\<close> of ImageMagick.
\<close>

fun reads_from :: "string \<Rightarrow> call \<Rightarrow> bool" where
  "reads_from src (CopyFile s d) = (s = src)"
| "reads_from src (ExecFile cmd args) =
     (3 \<le> length args \<and>
      ((args ! (length args - 3) = JStr ''--output'' \<and> last args = JStr src) \<or>
       (args ! (length args - 3) = JStr ''-outfile'' \<and> last args = JStr src) \<or>
       (hd args = JStr ''convert'' \<and> args ! 1 = JStr src)))"
| "reads_from src c = True"

text \<open>A step whose profile name, or whose entry for a tool in that profile, is missing.\<close>

definition profile_missing :: "config \<Rightarrow> step \<Rightarrow> string \<Rightarrow> bool" where
  "profile_missing cfg st key =
     (case profiles cfg (profile_key st) of
        None \<Rightarrow> True
      | Some prof \<Rightarrow> prof key = None)"

section \<open>Discovery and scheduling\<close>

text \<open>
  The task list of \<open>main\<close>: the files enumerated by \<open>walk\<close>, in order, that
  \<open>matchFile\<close> accepts on their path relative to the input root.
\<close>

definition discover :: "env \<Rightarrow> config \<Rightarrow> string list \<Rightarrow> string list" where
  "discover ev cfg walked =
     filter (\<lambda>abs. matchFile (path_relative (cwd ev) (path_resolve (cwd ev) (inputDir cfg)) abs)
                     (selection cfg)) walked"


text \<open>
  Several workers. JavaScript runs one piece of code at a time and switches
  between the workers only at an \<open>await\<close>, so a worker takes a step of one of two
  kinds: at the head of its loop it reads and increments the shared index and
  either leaves the loop or starts \<open>processOne\<close> on the task it claimed; while it
  waits for \<open>processOne\<close>, that call ends (resolved or rejected) and the worker is
  back at the head of its loop. A schedule is the order in which the workers take
  their steps.
\<close>

datatype wstate = Ready | Busy nat | Finished

record sched =
  idx :: nat
  workers :: "wstate list"
  started :: "(nat \<times> string) list"
  ended :: "(nat \<times> bool) list"

definition sched_init :: "nat \<Rightarrow> sched" where
  "sched_init conc = \<lparr>idx = 0, workers = replicate conc Ready, started = [], ended = []\<rparr>"

definition worker_step :: "string list \<Rightarrow> nat \<Rightarrow> bool \<Rightarrow> sched \<Rightarrow> sched option" where
  "worker_step tasks w ok s =
     (if w < length (workers s) then
        (case workers s ! w of
           Ready \<Rightarrow>
             (let i = idx s
              in if length tasks \<le> i
                 then Some (s\<lparr>idx := i + 1, workers := (workers s)[w := Finished]\<rparr>)
                 else Some (s\<lparr>idx := i + 1, workers := (workers s)[w := Busy i],
                              started := started s @ [(i, tasks ! i)]\<rparr>))
         | Busy i \<Rightarrow> Some (s\<lparr>workers := (workers s)[w := Ready], ended := ended s @ [(i, ok)]\<rparr>)
         | Finished \<Rightarrow> None)
      else None)"

fun run_sched :: "string list \<Rightarrow> (nat \<times> bool) list \<Rightarrow> sched \<Rightarrow> sched option" where
  "run_sched tasks [] s = Some s"
| "run_sched tasks ((w, ok) # evs) s =
     (case worker_step tasks w ok s of
        None \<Rightarrow> None
      | Some s' \<Rightarrow> run_sched tasks evs s')"

text \<open>\<open>Promise.all\<close> resolves when every worker has left its loop.\<close>

definition all_finished :: "sched \<Rightarrow> bool" where
  "all_finished s = list_all (\<lambda>w. w = Finished) (workers s)"

text \<open>
  The tasks that are being processed in a state, and the number of steps that
  the workers can still take: two for every task not yet claimed (its claim and
  the end of its processing), two for a worker that is processing (the end, and
  its next visit to the head of the loop) and one for a worker at the head of
  the loop.
\<close>

fun busy_of :: "wstate \<Rightarrow> nat list" where
  "busy_of (Busy i) = [i]"
| "busy_of w = []"

definition in_flight :: "sched \<Rightarrow> nat list" where
  "in_flight s = concat (map busy_of (workers s))"

definition steps_left :: "string list \<Rightarrow> sched \<Rightarrow> nat" where
  "steps_left tasks s =
     2 * (length tasks - idx s) + 2 * length (in_flight s) +
     length (filter (\<lambda>w. w = Ready) (workers s))"

text \<open>
  What holds of every state of the worker pool: the claims made so far are the
  first positions of the task list in order, the shared index has been
  incremented once per claim and once per worker that left its loop, and every
  claimed position is either being processed or has ended.
\<close>

definition sched_inv :: "string list \<Rightarrow> nat \<Rightarrow> sched \<Rightarrow> bool" where
  "sched_inv tasks N s \<longleftrightarrow>
     length (workers s) = N \<and>
     started s = map (\<lambda>i. (i, tasks ! i)) [0..<min (idx s) (length tasks)] \<and>
     idx s = min (idx s) (length tasks) + length (filter (\<lambda>w. w = Finished) (workers s)) \<and>
     mset (map fst (ended s)) + mset (in_flight s) = mset [0..<min (idx s) (length tasks)]"

section \<open>A sample configuration and environment\<close>

text \<open>
  Used to evaluate the definitions at concrete inputs.
\<close>

definition ex_cfg :: config where
  "ex_cfg = \<lparr>inputDir = ''/in'', outputDir = ''/out'',
     selection = \<lparr>includeExt = [''png'', ''jpg''], excludePatterns = [''tmp'']\<rparr>,
     pipeline = [\<lparr>step_name = ''pngquant'', step_enabled = True, step_matchExt = [''png''],
                  step_suffix = Some ''_q'', step_profile = Some ''fast''\<rparr>,
                 \<lparr>step_name = ''bogus'', step_enabled = True, step_matchExt = [''png''],
                  step_suffix = Some ''_b'', step_profile = None\<rparr>,
                 \<lparr>step_name = ''imagemagick_compress'', step_enabled = True,
                  step_matchExt = [''png'', ''jpg''],
                  step_suffix = Some ''_im'', step_profile = Some ''fast''\<rparr>],
     profiles = [''fast'' \<mapsto> [''pngquant'' \<mapsto> [JStr ''--speed'', JNum 1],
                                 ''imagemagick_png'' \<mapsto>
                                   [JStr ''PNG8:'', JStr ''-strip'', JStr ''x:'', JNum 3]]],
     tool_pngquant = ''pngquant'', tool_mozjpeg = ''cjpeg'', tool_magick = ''magick'',
     recursive = True, preserveTree = True, dryRun = False, concurrency = None,
     writePerFile = True, csvPath = ''log.csv''\<rparr>"

definition ex_env :: env where
  "ex_env = \<lparr>cwd = ''/'',
     stat_result = (\<lambda>h p. if p = ''/in/sub/A.PNG'' then Some 100 else if p = ''/out/sub/A_q.png'' then Some 60 else None),
     mkdir_result = (\<lambda>h p. None),
     copy_result = (\<lambda>h s d. None),
     exec_result = (\<lambda>h c a. Inr 12),
     append_result = (\<lambda>h p d. None)\<rparr>"

definition moz_step :: step where
  "moz_step = \<lparr>step_name = ''mozjpeg'', step_enabled = True, step_matchExt = [''png''],
                  step_suffix = Some ''_m'', step_profile = None\<rparr>"

text \<open>An environment where no directory can be created, and one where every file is empty.\<close>

definition ex_env_mkdir_fails :: env where
  "ex_env_mkdir_fails =
     ex_env\<lparr>mkdir_result := (\<lambda>h p. Some \<lparr>err_stderr = None, err_message = ''EACCES''\<rparr>)\<rparr>"

definition ex_env_empty_file :: env where
  "ex_env_empty_file = ex_env\<lparr>stat_result := (\<lambda>h p. Some 0)\<rparr>"

text \<open>A dry-run configuration whose only step is named like the terminal row.\<close>

definition ex_cfg_named_original :: config where
  "ex_cfg_named_original =
     ex_cfg\<lparr>dryRun := True,
             pipeline := [\<lparr>step_name = ''ORIGINAL'', step_enabled = True,
                           step_matchExt = [''png''], step_suffix = Some ''_o'',
                           step_profile = None\<rparr>]\<rparr>"

text \<open>
  An environment where the log cannot be appended to, and a configuration whose
  first step has an unknown name.
\<close>

definition ex_env_append_fails :: env where
  "ex_env_append_fails =
     ex_env\<lparr>append_result := (\<lambda>h p d. Some \<lparr>err_stderr = None, err_message = ''ENOSPC''\<rparr>)\<rparr>"


text \<open>
  Three tasks and two workers: worker 1 fails on the second task and goes on
  with the third; both workers then find the list exhausted.
\<close>

definition ex_tasks :: "string list" where
  "ex_tasks = [''/in/a.png'', ''/in/b.png'', ''/in/c.png'']"

definition ex_schedule :: "(nat \<times> bool) list" where
  "ex_schedule = [(0, True), (1, True), (1, False), (1, True), (0, True), (0, True), (1, True), (1, True)]"

definition ex_final :: sched where
  "ex_final = \<lparr>idx = 5, workers = [Finished, Finished],
      started = [(0, ''/in/a.png''), (1, ''/in/b.png''), (2, ''/in/c.png'')],
      ended = [(1, False), (0, True), (2, True)]\<rparr>"

section \<open>Facts about strings and paths\<close>


lemma js_split_not_Nil: "js_split c s \<noteq> []"
  by (induction s) (auto split: list.splits)

lemma js_split_Cons:
  "js_split c (x # xs) =
     (if x = c then [] # js_split c xs else (x # hd (js_split c xs)) # tl (js_split c xs))"
  using js_split_not_Nil [of c xs] by (cases "js_split c xs") auto

declare js_split.simps(2) [simp del]
declare js_split_Cons [simp]

lemma js_split_no_sep: "x \<in> set (js_split c s) \<Longrightarrow> c \<notin> set x"
proof (induction s arbitrary: x)
  case Nil
  then show ?case by simp
next
  case (Cons a s)
  show ?case
  proof (cases "a = c")
    case True
    with Cons show ?thesis by auto
  next
    case False
    obtain y ys where r: "js_split c s = y # ys"
      using js_split_not_Nil [of c s] by (cases "js_split c s") auto
    with Cons False show ?thesis by auto
  qed
qed

lemma js_split_id: "c \<notin> set s \<Longrightarrow> js_split c s = [s]"
  by (induction s) auto

lemma js_split_append_sep: "js_split c (x @ c # y) = js_split c x @ js_split c y"
proof (induction x)
  case Nil
  then show ?case by simp
next
  case (Cons a x)
  obtain z zs where r: "js_split c x = z # zs"
    using js_split_not_Nil [of c x] by (cases "js_split c x") auto
  with Cons show ?case by auto
qed

lemma segments_append_sep: "segments (x @ path_sep # y) = segments x @ segments y"
  by (simp add: segments_def js_split_append_sep)

lemma segments_elem: "x \<in> set (segments p) \<Longrightarrow> x \<noteq> [] \<and> path_sep \<notin> set x"
  by (auto simp: segments_def dest: js_split_no_sep)

lemma segments_single: "s \<noteq> [] \<Longrightarrow> path_sep \<notin> set s \<Longrightarrow> segments s = [s]"
  by (simp add: segments_def js_split_id)

lemma segments_Nil: "segments [] = []"
  by (simp add: segments_def)

lemma last_portion_no_sep: "path_sep \<notin> set (last_portion p)"
proof (cases "segments p = []")
  case True
  then show ?thesis by (simp add: last_portion_def)
next
  case False
  then have "last (segments p) \<in> set (segments p)" by simp
  from segments_elem [OF this] False show ?thesis by (simp add: last_portion_def)
qed

lemma last_dot_lt: "last_dot b = Some d \<Longrightarrow> d < length b"
  by (induction b arbitrary: d) (auto split: option.splits if_splits)

lemma baseNameNoExt_extname: "baseNameNoExt p @ path_extname p = last_portion p"
proof (cases "path_extname p = []")
  case True
  then show ?thesis by (simp add: baseNameNoExt_def path_basename_def)
next
  case False
  define b where "b = last_portion p"
  from False obtain d where d: "last_dot b = Some d" "d \<noteq> 0" "path_extname p = drop d b"
    by (auto simp: path_extname_def Let_def b_def split: option.splits if_splits)
  from d(1) have lt: "d < length b" by (rule last_dot_lt)
  have sfx: "suffix (drop d b) b" by (rule suffix_drop)
  have ne: "drop d b \<noteq> b" using d(2) lt
    by (metis append_take_drop_id length_take min.absorb2 less_imp_le_nat self_append_conv2 length_0_conv)
  have len: "length b - length (drop d b) = d" using lt by simp
  show ?thesis
    using False sfx ne len d(3)
    by (simp add: baseNameNoExt_def path_basename_def Let_def b_def [symmetric])
qed

lemma baseNameNoExt_no_sep: "path_sep \<notin> set (baseNameNoExt p)"
proof -
  have "set (baseNameNoExt p) \<subseteq> set (last_portion p)"
    by (auto simp: baseNameNoExt_def path_basename_def Let_def dest: in_set_takeD)
  then show ?thesis using last_portion_no_sep [of p] by blast
qed

lemma name_unchanged: "js_join ''__'' (js_split path_sep (baseNameNoExt p)) = baseNameNoExt p"
  by (simp add: js_split_id baseNameNoExt_no_sep)

lemma includes_str_iff: "includes_str s pat \<longleftrightarrow> (\<exists>pre post. s = pre @ pat @ post)"
proof (induction s)
  case Nil
  then show ?case by auto
next
  case (Cons a s)
  show ?case
  proof
    assume "includes_str (a # s) pat"
    then consider "prefix pat (a # s)" | "includes_str s pat" by auto
    then show "\<exists>pre post. a # s = pre @ pat @ post"
    proof cases
      case 1
      then obtain post where "a # s = pat @ post" by (auto simp: prefix_def)
      then have "a # s = [] @ pat @ post" by simp
      then show ?thesis by blast
    next
      case 2
      with Cons obtain pre post where "s = pre @ pat @ post" by blast
      then have "a # s = (a # pre) @ pat @ post" by simp
      then show ?thesis by blast
    qed
  next
    assume "\<exists>pre post. a # s = pre @ pat @ post"
    then obtain pre post where e: "a # s = pre @ pat @ post" by blast
    show "includes_str (a # s) pat"
    proof (cases pre)
      case Nil
      with e have "prefix pat (a # s)" by (simp add: prefix_def)
      then show ?thesis by simp
    next
      case (Cons b pre')
      with e have "s = pre' @ pat @ post" by simp
      with Cons.IH show ?thesis by auto
    qed
  qed
qed

lemma isAbsolute_resolve: "isAbsolute p \<Longrightarrow> path_resolve wd p = path_resolve wd' p"
  by (simp add: path_resolve_def)

lemma relative_cwd: "isAbsolute a \<Longrightarrow> isAbsolute b \<Longrightarrow> path_relative wd a b = path_relative wd' a b"
  by (simp add: path_relative_def isAbsolute_resolve [of a wd wd'] isAbsolute_resolve [of b wd wd'])


lemma js_join_sep_Cons: "xs \<noteq> [] \<Longrightarrow> js_join [c] (x # xs) = x @ c # js_join [c] xs"
  by (cases xs) auto

lemma segments_js_join: "segments (js_join ''/'' xs) = concat (map segments xs)"
proof (induction xs)
  case Nil
  then show ?case by (simp add: segments_Nil)
next
  case (Cons x xs)
  show ?case
  proof (cases "xs = []")
    case True
    then show ?thesis by simp
  next
    case False
    have "js_join ''/'' (x # xs) = x @ path_sep # js_join ''/'' xs"
      using js_join_sep_Cons [OF False, of "CHR ''/''" x] by (simp add: path_sep_def)
    then show ?thesis using Cons by (simp add: segments_append_sep)
  qed
qed

lemma segments_slash_prefix: "segments (''/'' @ p) = segments p"
proof -
  have "segments ([] @ path_sep # p) = segments [] @ segments p"
    by (rule segments_append_sep)
  then show ?thesis by (simp add: segments_Nil path_sep_def)
qed

lemma concat_segments_id:
  "\<forall>x \<in> set xs. x \<noteq> [] \<and> path_sep \<notin> set x \<Longrightarrow> concat (map segments xs) = xs"
  by (induction xs) (auto simp: segments_single)

lemma norm_segs_snoc:
  "f \<noteq> ''.'' \<Longrightarrow> f \<noteq> ''..'' \<Longrightarrow> norm_segs a acc (xs @ [f]) = norm_segs a acc xs @ [f]"
  by (induction xs arbitrary: acc) auto

lemma norm_segs_subset: "set (norm_segs a acc xs) \<subseteq> set acc \<union> set xs"
proof (induction xs arbitrary: acc)
  case Nil
  then show ?case by simp
next
  case (Cons s ss)
  have b: "set (butlast acc) \<subseteq> set acc" by (auto dest: in_set_butlastD)
  show ?case
  proof (cases "s = ''.''")
    case True
    then show ?thesis using Cons.IH [of acc] by auto
  next
    case notdot: False
    show ?thesis
    proof (cases "s = ''..''")
      case False
      with notdot show ?thesis using Cons.IH [of "acc @ [s]"] by auto
    next
      case True
      consider "acc \<noteq> [] \<and> last acc \<noteq> ''..''"
        | "\<not> (acc \<noteq> [] \<and> last acc \<noteq> ''..'')" "a"
        | "\<not> (acc \<noteq> [] \<and> last acc \<noteq> ''..'')" "\<not> a" by blast
      then show ?thesis
      proof cases
        case 1
        then show ?thesis using True Cons.IH [of "butlast acc"] b by auto
      next
        case 2
        then show ?thesis using True Cons.IH [of "acc @ [''..'']"] by auto
      next
        case 3
        then show ?thesis using True Cons.IH [of acc] by auto
      qed
    qed
  qed
qed

lemma norm_segs_elems:
  "x \<in> set (norm_segs a acc xs) \<Longrightarrow> x \<in> set acc \<or> x \<in> set xs"
  using norm_segs_subset [of a acc xs] by blast

lemma norm_segs_id:
  "''.'' \<notin> set xs \<Longrightarrow> ''..'' \<notin> set xs \<Longrightarrow> norm_segs a acc xs = acc @ xs"
  by (induction xs arbitrary: acc) auto

lemma norm_segs_no_dots:
  "''.'' \<notin> set acc \<Longrightarrow> ''..'' \<notin> set acc \<Longrightarrow>
   ''.'' \<notin> set (norm_segs False acc xs) \<and> ''..'' \<notin> set (norm_segs False acc xs)"
proof (induction xs arbitrary: acc)
  case Nil
  then show ?case by simp
next
  case (Cons s ss)
  have bl: "''.'' \<notin> set (butlast acc)" "''..'' \<notin> set (butlast acc)"
    using Cons.prems by (auto dest: in_set_butlastD)
  show ?case
    using Cons.IH [of acc] Cons.IH [of "butlast acc"] Cons.IH [of "acc @ [s]"] Cons.prems bl
    by auto
qed

lemma last_portion_path_join:
  assumes f: "f \<noteq> []" "path_sep \<notin> set f" "f \<noteq> ''.''" "f \<noteq> ''..''"
  shows "last_portion (path_join [a, d, f]) = f"
proof -
  define parts where "parts = filter (\<lambda>x. x \<noteq> []) [a, d, f]"
  define p where "p = js_join ''/'' parts"
  have parts: "parts = filter (\<lambda>x. x \<noteq> []) [a, d] @ [f]"
    using f(1) by (simp add: parts_def)
  have pne: "parts \<noteq> []" using parts by simp
  have segs: "segments p = concat (map segments (filter (\<lambda>x. x \<noteq> []) [a, d])) @ [f]"
    using f(1,2) by (simp add: p_def segments_js_join parts segments_single)
  define pre where "pre = concat (map segments (filter (\<lambda>x. x \<noteq> []) [a, d]))"
  define ns where "ns = norm_segs (\<not> isAbsolute p) [] pre"
  have norm: "norm_segs (\<not> isAbsolute p) [] (segments p) = ns @ [f]"
    using segs f(3,4) by (simp add: norm_segs_snoc pre_def ns_def)
  have ns_ok: "\<forall>x \<in> set (ns @ [f]). x \<noteq> [] \<and> path_sep \<notin> set x"
  proof
    fix x assume "x \<in> set (ns @ [f])"
    then consider "x = f" | "x \<in> set ns" by auto
    then show "x \<noteq> [] \<and> path_sep \<notin> set x"
    proof cases
      case 1
      then show ?thesis using f by simp
    next
      case 2
      then have "x \<in> set pre" using norm_segs_elems [of x "\<not> isAbsolute p" "[]" pre]
        by (auto simp: ns_def)
      then have "x \<in> set (segments p)" using segs by (simp add: pre_def)
      then show ?thesis by (rule segments_elem)
    qed
  qed
  have body_segs: "segments (js_join ''/'' (ns @ [f])) = ns @ [f]"
    using ns_ok by (simp only: segments_js_join concat_segments_id)
  have body_ne: "js_join ''/'' (ns @ [f]) \<noteq> []"
  proof
    assume "js_join ''/'' (ns @ [f]) = []"
    then have "segments (js_join ''/'' (ns @ [f])) = []" by (simp add: segments_Nil)
    with body_segs show False by simp
  qed
  have p_ne: "p \<noteq> []"
  proof
    assume "p = []"
    then have "segments p = []" by (simp add: segments_Nil)
    with segs show False by simp
  qed
  have last_p: "last p = last f"
  proof (cases "filter (\<lambda>x. x \<noteq> []) [a, d] = []")
    case True
    then show ?thesis by (simp add: p_def parts)
  next
    case False
    define q where "q = filter (\<lambda>x. x \<noteq> []) [a, d]"
    have "js_join ''/'' (q @ [f]) = js_join ''/'' q @ ''/'' @ f"
      using False unfolding q_def [symmetric]
    proof (induction q)
      case Nil
      then show ?case by simp
    next
      case (Cons y ys)
      then show ?case by (cases ys) auto
    qed
    then show ?thesis using f(1) by (simp add: p_def parts q_def)
  qed
  have not_trailing: "last p \<noteq> path_sep"
    using last_p f(1,2) last_in_set [of f] by metis
  have norm_eq: "path_normalize p =
      (if isAbsolute p then ''/'' else []) @ js_join ''/'' (ns @ [f])"
    using p_ne body_ne not_trailing norm by (simp add: path_normalize_def Let_def)
  have "segments (path_normalize p) = ns @ [f]"
  proof (cases "isAbsolute p")
    case True
    then show ?thesis using norm_eq body_segs by (simp only: if_True segments_slash_prefix)
  next
    case False
    then show ?thesis using norm_eq body_segs by simp
  qed
  moreover have "path_join [a, d, f] = path_normalize p"
    using pne by (simp add: path_join_def Let_def p_def parts_def)
  ultimately show ?thesis by (simp add: last_portion_def)
qed

lemma last_dot_append:
  "CHR ''.'' \<notin> set e \<Longrightarrow> last_dot (x @ CHR ''.'' # e) = Some (length x)"
proof (induction x)
  case Nil
  have "last_dot e = None" using Nil by (induction e) (auto split: option.splits)
  then show ?case by simp
next
  case (Cons a x)
  then show ?case by simp
qed

lemma last_dot_None: "last_dot b = None \<longleftrightarrow> CHR ''.'' \<notin> set b"
  by (induction b) (auto split: option.splits)

lemma last_dot_drop: "last_dot b = Some d \<Longrightarrow> b ! d = CHR ''.'' \<and> CHR ''.'' \<notin> set (drop (Suc d) b)"
proof (induction b arbitrary: d)
  case Nil
  then show ?case by simp
next
  case (Cons c cs)
  show ?case
  proof (cases "last_dot cs")
    case None
    with Cons.prems have "d = 0" "c = CHR ''.''" by (auto split: if_splits)
    moreover have "CHR ''.'' \<notin> set cs" using None by (simp add: last_dot_None)
    ultimately show ?thesis by simp
  next
    case (Some i)
    with Cons.prems have "d = Suc i" by simp
    with Cons.IH [OF Some] show ?thesis by simp
  qed
qed

lemma lower_char_idem: "lower_char (lower_char c) = lower_char c"
proof -
  have "of_char (char_of (of_char c + 32 :: nat)) = (of_char c + 32 :: nat)"
    if "65 \<le> (of_char c :: nat)" "(of_char c :: nat) \<le> 90"
    using that by (simp add: of_char_of)
  then show ?thesis by (auto simp: lower_char_def Let_def)
qed

lemma toLowerCase_idem: "toLowerCase (toLowerCase s) = toLowerCase s"
  by (simp add: toLowerCase_def lower_char_idem)

lemma lower_char_dot: "lower_char c = CHR ''.'' \<longleftrightarrow> c = CHR ''.''"
proof -
  have "(of_char (CHR ''.'') :: nat) = 46" by simp
  have "char_of (of_char c + 32 :: nat) \<noteq> CHR ''.''" if "65 \<le> (of_char c :: nat)" "(of_char c :: nat) \<le> 90"
  proof
    assume "char_of (of_char c + 32 :: nat) = CHR ''.''"
    then have "(of_char (char_of (of_char c + 32 :: nat)) :: nat) = of_char (CHR ''.'')" by simp
    then show False using that by (simp add: of_char_of)
  qed
  moreover have "c \<noteq> CHR ''.''" if "65 \<le> (of_char c :: nat)" using that by auto
  ultimately show ?thesis by (auto simp: lower_char_def Let_def)
qed

lemma lower_char_sep: "lower_char c = path_sep \<longleftrightarrow> c = path_sep"
proof -
  have "char_of (of_char c + 32 :: nat) \<noteq> CHR ''/''" if "65 \<le> (of_char c :: nat)" "(of_char c :: nat) \<le> 90"
  proof
    assume "char_of (of_char c + 32 :: nat) = CHR ''/''"
    then have "(of_char (char_of (of_char c + 32 :: nat)) :: nat) = of_char (CHR ''/'')" by simp
    then show False using that by (simp add: of_char_of)
  qed
  moreover have "c \<noteq> CHR ''/''" if "65 \<le> (of_char c :: nat)" using that by auto
  ultimately show ?thesis by (auto simp: lower_char_def Let_def path_sep_def)
qed

lemma toLowerCase_no_sep: "path_sep \<notin> set s \<Longrightarrow> path_sep \<notin> set (toLowerCase s)"
proof
  assume a: "path_sep \<notin> set s" and "path_sep \<in> set (toLowerCase s)"
  then obtain x where "x \<in> set s" "lower_char x = path_sep"
    by (auto simp: toLowerCase_def)
  with a show False by (simp add: lower_char_sep)
qed

lemma toLowerCase_no_dot: "CHR ''.'' \<notin> set s \<Longrightarrow> CHR ''.'' \<notin> set (toLowerCase s)"
proof
  assume a: "CHR ''.'' \<notin> set s" and "CHR ''.'' \<in> set (toLowerCase s)"
  then obtain x where "x \<in> set s" "lower_char x = CHR ''.''"
    by (auto simp: toLowerCase_def)
  with a show False by (simp add: lower_char_dot)
qed

lemma extname_no_sep: "path_sep \<notin> set (path_extname p)"
proof -
  have "set (path_extname p) \<subseteq> set (last_portion p)"
    by (auto simp: path_extname_def Let_def split: option.splits dest: in_set_dropD)
  then show ?thesis using last_portion_no_sep [of p] by blast
qed

lemma extOf_no_sep: "path_sep \<notin> set (extOf p)"
proof -
  have "path_sep \<notin> set (drop 1 (path_extname p))"
    using extname_no_sep [of p] by (auto dest: in_set_dropD)
  then show ?thesis by (simp add: extOf_def toLowerCase_no_sep)
qed

lemma extOf_no_dot: "CHR ''.'' \<notin> set (extOf p)"
proof -
  have "CHR ''.'' \<notin> set (drop 1 (path_extname p))"
    by (auto simp: path_extname_def Let_def split: option.splits dest: last_dot_drop)
  then show ?thesis by (simp add: extOf_def toLowerCase_no_dot)
qed

lemma extOf_lower: "toLowerCase (extOf p) = extOf p"
  by (simp add: extOf_def toLowerCase_idem)

lemma extname_filename:
  assumes "x \<noteq> []" "CHR ''.'' \<notin> set e" "\<not> (x = ''.'' \<and> e = [])" "last_portion q = x @ ''.'' @ e"
  shows "path_extname q = ''.'' @ e"
proof -
  have ld: "last_dot (x @ ''.'' @ e) = Some (length x)"
    using assms(2) last_dot_append [of e x] by simp
  have ne: "x @ ''.'' @ e \<noteq> ''..''"
  proof
    assume eq: "x @ ''.'' @ e = ''..''"
    then have "length (x @ ''.'' @ e) = 2" by simp
    then have l: "length x + length e = 1" by simp
    from assms(1) obtain c cs where x: "x = c # cs" by (cases x) auto
    with l have "cs = []" "e = []" by auto
    with eq x assms(3) show False by simp
  qed
  show ?thesis using ld ne assms(1,4) by (simp add: path_extname_def Let_def)
qed

lemma extname_cong: "last_portion p = last_portion q \<Longrightarrow> path_extname p = path_extname q"
  by (simp add: path_extname_def)

lemma extOf_cong: "last_portion p = last_portion q \<Longrightarrow> extOf p = extOf q"
  using extname_cong [of p q] by (simp add: extOf_def)

lemma strip_common_prefix: "strip_common xs (xs @ ns) = ([], ns)"
proof (induction xs)
  case Nil
  then show ?case by (cases ns) auto
next
  case (Cons a xs)
  then show ?case by simp
qed

lemma segments_resolve_abs:
  assumes "isAbsolute p" "''.'' \<notin> set (segments p)" "''..'' \<notin> set (segments p)"
  shows "segments (path_resolve wd p) = segments p"
proof -
  have n: "norm_segs False [] (segments p) = segments p"
    using assms(2,3) by (simp add: norm_segs_id)
  have "\<forall>x \<in> set (segments p). x \<noteq> [] \<and> path_sep \<notin> set x"
    using segments_elem by blast
  then have "segments (js_join ''/'' (segments p)) = segments p"
    by (simp only: segments_js_join concat_segments_id)
  then show ?thesis
    using assms(1) n segments_slash_prefix [of "js_join ''/'' (segments p)"]
    by (simp add: path_resolve_def)
qed

lemma relative_under_root:
  assumes "under_root root f"
  shows "\<exists>ns. ns \<noteq> [] \<and> segments f = segments root @ ns \<and>
              path_relative wd root f = js_join ''/'' ns \<and>
              last_portion (path_relative wd root f) = last ns \<and> last_portion f = last ns"
proof -
  from assms have absr: "isAbsolute root" and absf: "isAbsolute f"
    and sp: "strict_prefix (segments root) (segments f)"
    and nd: "''.'' \<notin> set (segments f)" "''..'' \<notin> set (segments f)"
    by (auto simp: under_root_def)
  from sp obtain ns where ns: "segments f = segments root @ ns" "ns \<noteq> []"
    by (auto simp: strict_prefix_def prefix_def)
  have ndr: "''.'' \<notin> set (segments root)" "''..'' \<notin> set (segments root)"
    using nd ns(1) by auto
  have sr: "segments (path_resolve wd root) = segments root"
    using absr ndr by (rule segments_resolve_abs)
  have sf: "segments (path_resolve wd f) = segments root @ ns"
    using segments_resolve_abs [OF absf nd] ns(1) by simp
  have ne1: "root \<noteq> f" using ns by auto
  have ne2: "path_resolve wd root \<noteq> path_resolve wd f"
  proof
    assume "path_resolve wd root = path_resolve wd f"
    then have "segments (path_resolve wd root) = segments (path_resolve wd f)" by simp
    with sr sf ns(2) show False by simp
  qed
  have rel: "path_relative wd root f = js_join ''/'' ns"
    using ne1 ne2 sr sf by (simp add: path_relative_def Let_def strip_common_prefix)
  have ns_ok: "\<forall>x \<in> set ns. x \<noteq> [] \<and> path_sep \<notin> set x"
  proof
    fix x assume "x \<in> set ns"
    then have "x \<in> set (segments f)" using ns(1) by simp
    then show "x \<noteq> [] \<and> path_sep \<notin> set x" by (rule segments_elem)
  qed
  have "segments (js_join ''/'' ns) = ns"
    using ns_ok by (simp only: segments_js_join concat_segments_id)
  then have lp: "last_portion (path_relative wd root f) = last ns"
    using rel ns(2) by (simp add: last_portion_def)
  have lf: "last_portion f = last ns" using ns by (simp add: last_portion_def)
  from ns rel lp lf show ?thesis by blast
qed

lemma under_root_last_portion:
  assumes "under_root root f"
  shows "last_portion (path_relative wd root f) = last_portion f"
    and "last_portion f \<noteq> []" and "last_portion f \<noteq> ''.''" and "last_portion f \<noteq> ''..''"
proof -
  from relative_under_root [OF assms, of wd] obtain ns where
    ns: "ns \<noteq> []" "segments f = segments root @ ns"
      "last_portion (path_relative wd root f) = last ns" "last_portion f = last ns"
    by blast
  show "last_portion (path_relative wd root f) = last_portion f" using ns by simp
  have mem: "last ns \<in> set (segments f)" using ns(1,2) by simp
  from segments_elem [OF mem] show "last_portion f \<noteq> []" using ns(4) by simp
  from assms have nd: "''.'' \<notin> set (segments f)" "''..'' \<notin> set (segments f)"
    by (auto simp: under_root_def)
  show "last_portion f \<noteq> ''.''" using mem nd(1) ns(4) by auto
  show "last_portion f \<noteq> ''..''" using mem nd(2) ns(4) by auto
qed

lemma baseNameNoExt_cong: "last_portion p = last_portion q \<Longrightarrow> baseNameNoExt p = baseNameNoExt q"
  by (simp add: baseNameNoExt_def path_basename_def extname_cong [of p q])

lemma baseNameNoExt_not_Nil:
  assumes "last_portion p \<noteq> []"
  shows "baseNameNoExt p \<noteq> []"
proof (cases "path_extname p = []")
  case True
  then show ?thesis using assms baseNameNoExt_extname [of p] by simp
next
  case False
  then obtain d where d: "last_dot (last_portion p) = Some d" "d \<noteq> 0"
      "path_extname p = drop d (last_portion p)"
    by (auto simp: path_extname_def Let_def split: option.splits if_splits)
  have "length (baseNameNoExt p) + length (path_extname p) = length (last_portion p)"
    using baseNameNoExt_extname [of p] by (metis length_append)
  moreover have "d < length (last_portion p)" using d(1) by (rule last_dot_lt)
  ultimately have "length (baseNameNoExt p) = d" using d(3) by simp
  with d(2) show ?thesis by auto
qed

lemma name_dot_ext:
  assumes "last_portion p \<noteq> ''.''" "last_portion p \<noteq> ''..''"
  shows "\<not> (baseNameNoExt p = ''.'' \<and> extOf p = [])"
proof
  assume a: "baseNameNoExt p = ''.'' \<and> extOf p = []"
  then have "drop 1 (path_extname p) = []" by (simp add: extOf_def toLowerCase_def)
  then have len: "length (path_extname p) \<le> 1" by simp
  have b: "last_portion p = ''.'' @ path_extname p"
    using a baseNameNoExt_extname [of p] by simp
  show False
  proof (cases "path_extname p")
    case Nil
    with b assms(1) show ?thesis by simp
  next
    case (Cons c cs)
    with len have cs: "cs = []" by simp
    have "last_dot (last_portion p) \<noteq> None"
      using Cons by (auto simp: path_extname_def Let_def split: option.splits)
    then obtain d where d: "last_dot (last_portion p) = Some d" by auto
    then have ext: "path_extname p = drop d (last_portion p)" "d \<noteq> 0"
      using Cons by (auto simp: path_extname_def Let_def split: if_splits)
    have "last_portion p ! d = CHR ''.''" using d by (simp add: last_dot_drop)
    moreover have "d < length (last_portion p)" using d by (rule last_dot_lt)
    ultimately have "hd (path_extname p) = CHR ''.''" using ext(1) by (simp add: hd_drop_conv_nth)
    with Cons cs have "path_extname p = ''.''" by simp
    with b assms(2) show ?thesis by simp
  qed
qed

lemma step_outFile_eq:
  "step_outFile ev cfg f st =
     path_join
       [path_resolve (cwd ev) (outputDir cfg),
        if preserveTree cfg
        then path_dirname (path_relative (cwd ev) (path_resolve (cwd ev) (inputDir cfg)) f)
        else [],
        baseNameNoExt (path_relative (cwd ev) (path_resolve (cwd ev) (inputDir cfg)) f) @
          (case step_suffix st of None \<Rightarrow> [] | Some x \<Rightarrow> x) @ ''.'' @
          (if step_name st = ''mozjpeg'' then ''jpg''
           else extOf (path_relative (cwd ev) (path_resolve (cwd ev) (inputDir cfg)) f))]"
  by (simp add: step_outFile_def outPathForStep_def forcedExt_of_def Let_def name_unchanged)

section \<open>Facts about the tool arguments\<close>

lemma endsWith_colon: "endsWith s '':'' \<longleftrightarrow> s \<noteq> [] \<and> last s = CHR '':''"
proof
  assume "endsWith s '':''"
  then obtain pre where "s = pre @ '':''" by (auto simp: endsWith_def suffix_def)
  then show "s \<noteq> [] \<and> last s = CHR '':''" by simp
next
  assume a: "s \<noteq> [] \<and> last s = CHR '':''"
  then have "s = butlast s @ '':''" by (metis append_butlast_last_id)
  then show "endsWith s '':''" unfolding endsWith_def suffix_def by blast
qed

lemma is_format_prefix_iff:
  "is_format_prefix a \<longleftrightarrow> (\<exists>s. a = JStr s \<and> s \<noteq> [] \<and> last s = CHR '':'')"
  by (cases a) (auto simp: is_format_prefix_def endsWith_colon)

lemma format_prefixes_Cons:
  "format_prefixes (a # as) =
     (case a of JStr s \<Rightarrow> if endsWith s '':'' then s # format_prefixes as else format_prefixes as
      | _ \<Rightarrow> format_prefixes as)"
  by (cases a) (auto simp: format_prefixes_def)

lemma scan_profile_eq:
  "scan_profile args fp clean =
     (if format_prefixes args = [] then fp else Some (last (format_prefixes args)),
      clean @ filter (\<lambda>a. \<not> is_format_prefix a) args)"
proof (induction args arbitrary: fp clean)
  case Nil
  then show ?case by (simp add: format_prefixes_def)
next
  case (Cons a as)
  show ?case
  proof (cases a)
    case (JStr s)
    then show ?thesis
      using Cons [of "Some s" clean] Cons [of fp "clean @ [a]"]
      by (simp add: format_prefixes_Cons is_format_prefix_def)
  next
    case (JNum n)
    then show ?thesis using Cons [of fp "clean @ [a]"]
      by (simp add: format_prefixes_Cons is_format_prefix_def)
  next
    case (JBool b)
    then show ?thesis using Cons [of fp "clean @ [a]"]
      by (simp add: format_prefixes_Cons is_format_prefix_def)
  next
    case JNull
    then show ?thesis using Cons [of fp "clean @ [a]"]
      by (simp add: format_prefixes_Cons is_format_prefix_def)
  qed
qed

section \<open>Facts about rows and diagnostics\<close>

lemma js_split_join:
  "xs \<noteq> [] \<Longrightarrow> \<forall>x \<in> set xs. c \<notin> set x \<Longrightarrow> js_split c (js_join [c] xs) = xs"
proof (induction xs)
  case Nil
  then show ?case by simp
next
  case (Cons x xs)
  show ?case
  proof (cases "xs = []")
    case True
    with Cons.prems show ?thesis by (simp add: js_split_id)
  next
    case False
    with Cons have "js_split c (js_join [c] xs) = xs" by simp
    moreover have "js_join [c] (x # xs) = x @ c # js_join [c] xs"
      using False by (rule js_join_sep_Cons)
    ultimately show ?thesis using Cons.prems by (simp add: js_split_append_sep js_split_id)
  qed
qed

lemma csv_field_no_comma: "CHR '','' \<notin> set (csv_field v)"
  by (auto simp: csv_field_def)

lemma csv_field_id: "CHR '','' \<notin> set v \<Longrightarrow> csv_field v = v"
  by (induction v) (auto simp: csv_field_def)

lemma csv_fields_row: "vs \<noteq> [] \<Longrightarrow> csv_fields (csv_row vs) = map csv_field vs"
  unfolding csv_fields_def csv_row_def
  by (rule js_split_join) (auto simp: csv_field_no_comma)

lemma digit_char_digit: "0 \<le> d \<Longrightarrow> d < 10 \<Longrightarrow> digit_char d \<in> set ''0123456789''"
proof -
  assume "0 \<le> d" "d < 10"
  then have "nat d < length ''0123456789''" by simp
  then show ?thesis unfolding digit_char_def by (rule nth_mem)
qed

lemma show_digits_digits: "0 \<le> n \<Longrightarrow> set (show_digits n) \<subseteq> set ''0123456789''"
proof (induction n rule: show_digits.induct)
  case (1 n)
  show ?case
  proof (cases "n < 10")
    case True
    with 1 show ?thesis
      using digit_char_digit [of n] by (subst show_digits.simps) simp
  next
    case False
    then have "0 \<le> n div 10" by simp
    with 1 False have ih: "set (show_digits (n div 10)) \<subseteq> set ''0123456789''" by simp
    have "digit_char (n mod 10) \<in> set ''0123456789''"
      by (rule digit_char_digit) simp_all
    with ih False show ?thesis by (subst show_digits.simps) simp
  qed
qed

lemma show_digits_not_Nil: "show_digits n \<noteq> []"
  by (subst show_digits.simps) simp

lemma show_digits_no_comma: "0 \<le> n \<Longrightarrow> CHR '','' \<notin> set (show_digits n)"
  using show_digits_digits [of n] by auto

lemma size_text_no_comma: "CHR '','' \<notin> set (size_text v)"
  by (cases v) (auto simp: size_text_def show_nat_def show_digits_no_comma)

lemma show_int_no_comma: "CHR '','' \<notin> set (show_int i)"
  by (auto simp: show_int_def show_digits_no_comma)

lemma fl64_den_pos: "0 < snd (fl64 x)"
  by (cases x) (auto simp: fl64_def Let_def)

lemma toFixed2_unfold:
  "\<exists>m'. 3 \<le> length m' \<and>
        (0 < den \<longrightarrow> set m' \<subseteq> set ''0123456789'') \<and>
        toFixed2 (num, den) =
          (if num < 0 then ''-'' else []) @ take (length m' - 2) m' @ ''.'' @ drop (length m' - 2) m'"
proof -
  define n where "n = (2 * (\<bar>num\<bar> * 100) + den) div (2 * den)"
  define m' where "m' = replicate (3 - length (show_digits n)) (CHR ''0'') @ show_digits n"
  have len: "3 \<le> length m'" by (simp add: m'_def)
  have dg: "set m' \<subseteq> set ''0123456789''" if d: "0 < den"
  proof -
    have "0 \<le> 2 * (\<bar>num\<bar> * 100) + den" using d by simp
    moreover have "0 < 2 * den" using d by simp
    ultimately have "0 \<le> n" unfolding n_def by (simp only: pos_imp_zdiv_nonneg_iff)
    then have "set (show_digits n) \<subseteq> set ''0123456789''" by (rule show_digits_digits)
    then show ?thesis by (auto simp: m'_def)
  qed
  have "toFixed2 (num, den) =
          (if num < 0 then ''-'' else []) @ take (length m' - 2) m' @ ''.'' @ drop (length m' - 2) m'"
    by (simp only: toFixed2_def Let_def prod.case m'_def n_def)
  with len dg show ?thesis by blast
qed

lemma toFixed2_chars:
  assumes "0 < den"
  shows "set (toFixed2 (num, den)) \<subseteq> set ''0123456789'' \<union> {CHR ''-'', CHR ''.''}"
proof -
  define D where "D = set ''0123456789''"
  from toFixed2_unfold [of den num] assms obtain m' where
    m: "set m' \<subseteq> D"
    and eq: "toFixed2 (num, den) =
          (if num < 0 then ''-'' else []) @ take (length m' - 2) m' @ ''.'' @ drop (length m' - 2) m'"
    unfolding D_def by blast
  have t: "set (take (length m' - 2) m') \<subseteq> D"
    using m set_take_subset [of "length m' - 2" m'] by blast
  have d: "set (drop (length m' - 2) m') \<subseteq> D"
    using m set_drop_subset [of "length m' - 2" m'] by blast
  have "set (toFixed2 (num, den)) \<subseteq>
      {CHR ''-''} \<union> set (take (length m' - 2) m') \<union> {CHR ''.''} \<union> set (drop (length m' - 2) m')"
    unfolding eq by auto
  with t d have "set (toFixed2 (num, den)) \<subseteq> D \<union> {CHR ''-'', CHR ''.''}" by blast
  then show ?thesis unfolding D_def .
qed

lemma toFixed2_two_decimals:
  "\<exists>ip fp. toFixed2 x = ip @ ''.'' @ fp \<and> length fp = 2"
proof -
  obtain num den where x: "x = (num, den)" by (cases x)
  from toFixed2_unfold [of den num] obtain m' where len: "3 \<le> length m'"
    and eq: "toFixed2 (num, den) =
          (if num < 0 then ''-'' else []) @ take (length m' - 2) m' @ ''.'' @ drop (length m' - 2) m'"
    by blast
  have "length (drop (length m' - 2) m') = 2" using len by simp
  moreover have "toFixed2 x = ((if num < 0 then ''-'' else []) @ take (length m' - 2) m') @ ''.'' @
      drop (length m' - 2) m'"
    using eq x by simp
  ultimately show ?thesis by blast
qed

lemma percent_change_den_pos: "0 < snd (percent_change a b)"
proof -
  obtain dn dd where d: "fl64 (int b - int a, 1) = (dn, dd)"
    by (cases "fl64 (int b - int a, 1)")
  obtain qn qd where q: "fl64 (dn, dd * int a) = (qn, qd)"
    by (cases "fl64 (dn, dd * int a)")
  show ?thesis using fl64_den_pos [of "(qn * 100, qd)"] d q by (simp add: percent_change_def)
qed

lemma pct_no_comma: "CHR '','' \<notin> set (pct a b)"
proof (cases a)
  case None
  then show ?thesis by (simp add: pct_def)
next
  case (Some a')
  show ?thesis
  proof (cases "a' = 0")
    case True
    with Some show ?thesis by (simp add: pct_def)
  next
    case False
    obtain pn pd where p: "percent_change a' b = (pn, pd)" by (cases "percent_change a' b")
    have "0 < pd" using percent_change_den_pos [of a' b] p by simp
    from toFixed2_chars [OF this, of pn] have "CHR '','' \<notin> set (toFixed2 (pn, pd))" by auto
    with Some False p show ?thesis by (simp add: pct_def)
  qed
qed







section \<open>Facts about the calls of a run\<close>

lemma magick_args_eq:
  "magick_args cfg st inExt outFile src =
     [JStr ''convert'', JStr src] @
     filter (\<lambda>a. \<not> is_format_prefix a)
       (if inExt = ''png'' then profile_args cfg st ''imagemagick_png''
        else profile_args cfg st ''imagemagick_jpg'') @
     [JStr ((if format_prefixes (if inExt = ''png'' then profile_args cfg st ''imagemagick_png''
                                 else profile_args cfg st ''imagemagick_jpg'') = [] then []
             else last (format_prefixes (if inExt = ''png'' then profile_args cfg st ''imagemagick_png''
                                         else profile_args cfg st ''imagemagick_jpg''))) @ outFile)]"
  by (simp add: magick_args_def Let_def scan_profile_eq)

lemma appended_rows_append:
  "appended_rows csv (xs @ ys) = appended_rows csv xs @ appended_rows csv ys"
proof (induction xs)
  case Nil
  then show ?case by simp
next
  case (Cons x xs)
  then show ?case by (cases x) auto
qed

lemma reads_from_pngquant: "reads_from src (ExecFile cmd (pngquant_args cfg st outFile src))"
  by (simp add: pngquant_args_def nth_append)

lemma reads_from_mozjpeg: "reads_from src (ExecFile cmd (mozjpeg_args cfg st outFile src))"
  by (simp add: mozjpeg_args_def nth_append)

lemma reads_from_magick: "reads_from src (ExecFile cmd (magick_args cfg st inExt outFile src))"
  by (simp add: magick_args_eq)

lemma run_tool_hist:
  "\<exists>cs. snd (run_tool ev cfg st inExt outFile src h) = h @ cs \<and>
        (\<forall>c \<in> set cs. reads_from src c) \<and> appended_rows csv cs = []"
proof -
  consider (dry) "dryRun cfg"
    | (png) "\<not> dryRun cfg" "step_name st = ''pngquant''"
    | (moz) "\<not> dryRun cfg" "step_name st = ''mozjpeg''"
    | (im) "\<not> dryRun cfg" "step_name st = ''imagemagick_compress''"
    | (unknown) "\<not> dryRun cfg" "step_name st \<noteq> ''pngquant''" "step_name st \<noteq> ''mozjpeg''"
        "step_name st \<noteq> ''imagemagick_compress''"
    by blast
  then show ?thesis
  proof cases
    case dry
    then have "snd (run_tool ev cfg st inExt outFile src h) = h @ [CopyFile src outFile]"
      by (simp add: run_tool_def copyFile_def split: option.splits)
    then show ?thesis by simp
  next
    case png
    then have "snd (run_tool ev cfg st inExt outFile src h) =
        h @ [ExecFile (tool_pngquant cfg) (pngquant_args cfg st outFile src)]"
      by (simp add: run_tool_def execFileAsync_def)
    then show ?thesis using reads_from_pngquant by simp
  next
    case moz
    then have "snd (run_tool ev cfg st inExt outFile src h) =
        h @ [ExecFile (tool_mozjpeg cfg) (mozjpeg_args cfg st outFile src)]"
      by (simp add: run_tool_def execFileAsync_def)
    then show ?thesis using reads_from_mozjpeg by simp
  next
    case im
    then have "snd (run_tool ev cfg st inExt outFile src h) =
        h @ [ExecFile (tool_magick cfg) (magick_args cfg st inExt outFile src)]"
      by (simp add: run_tool_def execFileAsync_def)
    then show ?thesis using reads_from_magick by simp
  next
    case unknown
    then have "snd (run_tool ev cfg st inExt outFile src h) = h @ []"
      by (simp add: run_tool_def)
    then show ?thesis by (intro exI [of _ "[]"]) simp
  qed
qed

lemma try_block_hist:
  "\<exists>cs. snd (try_block ev cfg st inExt outFile src h) = h @ cs \<and>
        (\<forall>c \<in> set cs. reads_from src c) \<and> appended_rows csv cs = []"
proof -
  from run_tool_hist [of ev cfg st inExt outFile src h csv] obtain cs where
    cs: "snd (run_tool ev cfg st inExt outFile src h) = h @ cs"
      "\<forall>c \<in> set cs. reads_from src c" "appended_rows csv cs = []"
    by blast
  obtain r h' where rt: "run_tool ev cfg st inExt outFile src h = (r, h')"
    by (cases "run_tool ev cfg st inExt outFile src h")
  with cs(1) have h': "h' = h @ cs" by simp
  show ?thesis
  proof (cases r)
    case (Inl e)
    with rt h' have "snd (try_block ev cfg st inExt outFile src h) = h @ cs"
      by (simp add: try_block_def)
    with cs show ?thesis by blast
  next
    case (Inr t)
    with rt h' have "snd (try_block ev cfg st inExt outFile src h) = h @ (cs @ [Stat outFile])"
      by (simp add: try_block_def fileSize_def)
    moreover have "\<forall>c \<in> set (cs @ [Stat outFile]). reads_from src c" using cs(2) by simp
    moreover have "appended_rows csv (cs @ [Stat outFile]) = []"
      using cs(3) by (simp add: appended_rows_append)
    ultimately show ?thesis by blast
  qed
qed

lemma appended_rows_single: "appended_rows csv [AppendFile csv (row @ [LF])] = [row]"
  by simp

lemma log_step_hist:
  "\<exists>cs. snd (log_step ev cfg st outFile before oc h) = h @ cs \<and>
        (\<forall>c \<in> set cs. reads_from src c) \<and>
        appended_rows (csvPath cfg) cs =
          (if writePerFile cfg
           then [step_row outFile (step_name st) before (oc_after oc) (oc_elapsedMs oc)
                   (oc_status oc) (oc_message oc)]
           else [])"
proof (cases "writePerFile cfg")
  case True
  then show ?thesis
    by (intro exI [of _ "[AppendFile (csvPath cfg)
          (step_row outFile (step_name st) before (oc_after oc) (oc_elapsedMs oc)
             (oc_status oc) (oc_message oc) @ [LF])]"])
      (simp add: log_step_def appendCsv_def)
next
  case False
  then show ?thesis by (intro exI [of _ "[]"]) (simp add: log_step_def)
qed

lemma step_rowsI:
  "step_row outFile (step_name st) before after elapsedMs status message \<in> step_rows st"
  unfolding step_rows_def by blast

lemma run_step_hist:
  "\<exists>cs. snd (run_step ev cfg f st h) = h @ cs \<and>
        (\<forall>c \<in> set cs. reads_from f c) \<and>
        set (appended_rows (csvPath cfg) cs) \<subseteq> step_rows st"
proof -
  let ?out = "step_outFile ev cfg f st"
  consider (skip) "\<not> step_enabled st \<or> extOf f \<notin> set (step_matchExt st)"
    | (mkfail) e where "step_enabled st" "extOf f \<in> set (step_matchExt st)"
        "mkdir_result ev h (path_dirname ?out) = Some e"
    | (run) "step_enabled st" "extOf f \<in> set (step_matchExt st)"
        "mkdir_result ev h (path_dirname ?out) = None"
    by (cases "mkdir_result ev h (path_dirname ?out)") auto
  then show ?thesis
  proof cases
    case skip
    then have "snd (run_step ev cfg f st h) = h @ []" by (auto simp: run_step_def Let_def)
    then show ?thesis by (intro exI [of _ "[]"]) simp
  next
    case mkfail
    then have "snd (run_step ev cfg f st h) = h @ [Mkdir (path_dirname ?out)]"
      by (simp add: run_step_def Let_def ensureDirFor_def)
    then show ?thesis by (intro exI [of _ "[Mkdir (path_dirname ?out)]"]) simp
  next
    case run
    define h2 where "h2 = h @ [Mkdir (path_dirname ?out), Stat f]"
    define before where "before = stat_result ev (h @ [Mkdir (path_dirname ?out)]) f"
    obtain oc h3 where tb: "try_block ev cfg st (extOf f) ?out f h2 = (oc, h3)"
      by (cases "try_block ev cfg st (extOf f) ?out f h2")
    from try_block_hist [of ev cfg st "extOf f" ?out f h2 "csvPath cfg"] tb obtain cs1 where
      cs1: "h3 = h2 @ cs1" "\<forall>c \<in> set cs1. reads_from f c" "appended_rows (csvPath cfg) cs1 = []"
      by auto
    from log_step_hist [of ev cfg st ?out before oc h3 f] obtain cs2 where
      cs2: "snd (log_step ev cfg st ?out before oc h3) = h3 @ cs2"
        "\<forall>c \<in> set cs2. reads_from f c"
        "appended_rows (csvPath cfg) cs2 =
          (if writePerFile cfg
           then [step_row ?out (step_name st) before (oc_after oc) (oc_elapsedMs oc)
                   (oc_status oc) (oc_message oc)]
           else [])"
      by blast
    have rs: "run_step ev cfg f st h = log_step ev cfg st ?out before oc h3"
      using run tb by (simp add: run_step_def Let_def ensureDirFor_def fileSize_def h2_def before_def)
    have 1: "snd (run_step ev cfg f st h) = h @ ([Mkdir (path_dirname ?out), Stat f] @ cs1 @ cs2)"
      using rs cs2(1) cs1(1) by (simp add: h2_def)
    have 2: "\<forall>c \<in> set ([Mkdir (path_dirname ?out), Stat f] @ cs1 @ cs2). reads_from f c"
      using cs1(2) cs2(2) by auto
    have 3: "set (appended_rows (csvPath cfg) ([Mkdir (path_dirname ?out), Stat f] @ cs1 @ cs2))
        \<subseteq> step_rows st"
      using cs1(3) cs2(3) step_rowsI [of ?out st before "oc_after oc" "oc_elapsedMs oc" "oc_status oc" "oc_message oc"]
      by (auto simp: appended_rows_append)
    from 1 2 3 show ?thesis by blast
  qed
qed

lemma run_steps_hist:
  "\<exists>cs. snd (run_steps ev cfg f sts h) = h @ cs \<and>
        (\<forall>c \<in> set cs. reads_from f c) \<and>
        set (appended_rows (csvPath cfg) cs) \<subseteq> (\<Union>st \<in> set sts. step_rows st)"
proof (induction sts arbitrary: h)
  case Nil
  show ?case by (intro exI [of _ "[]"]) simp
next
  case (Cons st rest)
  from run_step_hist [of ev cfg f st h] obtain cs1 where
    cs1: "snd (run_step ev cfg f st h) = h @ cs1" "\<forall>c \<in> set cs1. reads_from f c"
      "set (appended_rows (csvPath cfg) cs1) \<subseteq> step_rows st"
    by blast
  obtain r h' where rs: "run_step ev cfg f st h = (r, h')" by (cases "run_step ev cfg f st h")
  with cs1(1) have h': "h' = h @ cs1" by simp
  show ?case
  proof (cases r)
    case (Some e)
    with rs h' have "snd (run_steps ev cfg f (st # rest) h) = h @ cs1" by simp
    moreover have "set (appended_rows (csvPath cfg) cs1) \<subseteq> (\<Union>st \<in> set (st # rest). step_rows st)"
      using cs1(3) by auto
    ultimately show ?thesis using cs1(2) by blast
  next
    case None
    from Cons [of h'] obtain cs2 where
      cs2: "snd (run_steps ev cfg f rest h') = h' @ cs2" "\<forall>c \<in> set cs2. reads_from f c"
        "set (appended_rows (csvPath cfg) cs2) \<subseteq> (\<Union>st \<in> set rest. step_rows st)"
      by blast
    from None rs h' cs2(1) have 1: "snd (run_steps ev cfg f (st # rest) h) = h @ (cs1 @ cs2)"
      by simp
    have 2: "\<forall>c \<in> set (cs1 @ cs2). reads_from f c" using cs1(2) cs2(2) by auto
    have 3: "set (appended_rows (csvPath cfg) (cs1 @ cs2)) \<subseteq> (\<Union>st \<in> set (st # rest). step_rows st)"
      using cs1(3) cs2(3) by (auto simp: appended_rows_append)
    from 1 2 3 show ?thesis by blast
  qed
qed

lemma processOne_shape:
  "\<exists>cs. snd (run_steps ev cfg f (pipeline cfg) (h @ [Stat f])) = h @ [Stat f] @ cs \<and>
        (\<forall>c \<in> set cs. reads_from f c) \<and>
        set (appended_rows (csvPath cfg) cs) \<subseteq> (\<Union>st \<in> set (pipeline cfg). step_rows st) \<and>
        processOne ev cfg f h =
          (case fst (run_steps ev cfg f (pipeline cfg) (h @ [Stat f])) of
             Some e \<Rightarrow> (Some e, h @ [Stat f] @ cs)
           | None \<Rightarrow>
               (append_result ev (h @ [Stat f] @ cs) (csvPath cfg)
                  (original_row f (stat_result ev h f) @ [LF]),
                h @ [Stat f] @ cs @
                  [AppendFile (csvPath cfg) (original_row f (stat_result ev h f) @ [LF])]))"
proof -
  from run_steps_hist [of ev cfg f "pipeline cfg" "h @ [Stat f]"] obtain cs where
    cs: "snd (run_steps ev cfg f (pipeline cfg) (h @ [Stat f])) = (h @ [Stat f]) @ cs"
      "\<forall>c \<in> set cs. reads_from f c"
      "set (appended_rows (csvPath cfg) cs) \<subseteq> (\<Union>st \<in> set (pipeline cfg). step_rows st)"
    by blast
  obtain r h2 where rs: "run_steps ev cfg f (pipeline cfg) (h @ [Stat f]) = (r, h2)"
    by (cases "run_steps ev cfg f (pipeline cfg) (h @ [Stat f])")
  with cs(1) have h2: "h2 = h @ [Stat f] @ cs" by simp
  have "processOne ev cfg f h =
          (case fst (run_steps ev cfg f (pipeline cfg) (h @ [Stat f])) of
             Some e \<Rightarrow> (Some e, h @ [Stat f] @ cs)
           | None \<Rightarrow>
               (append_result ev (h @ [Stat f] @ cs) (csvPath cfg)
                  (original_row f (stat_result ev h f) @ [LF]),
                h @ [Stat f] @ cs @
                  [AppendFile (csvPath cfg) (original_row f (stat_result ev h f) @ [LF])]))"
    using rs h2 by (cases r) (simp_all add: processOne_def fileSize_def appendCsv_def)
  with cs show ?thesis by auto
qed

section \<open>Facts about the columns of a row\<close>

lemma delta_text_no_comma: "CHR '','' \<notin> set (delta_text before after)"
  by (auto simp: delta_text_def show_int_no_comma split: option.splits)

lemma deltaPct_text_no_comma: "CHR '','' \<notin> set (deltaPct_text before after)"
  by (auto simp: deltaPct_text_def pct_no_comma split: option.splits)

lemma step_row_fields:
  "csv_fields (step_row outFile stage before after elapsedMs status message) =
     [csv_field outFile, csv_field stage, size_text before, size_text after,
      delta_text before after, deltaPct_text before after,
      show_nat elapsedMs, csv_field status, csv_field (json_stringify message)]"
proof -
  have e: "csv_field (show_nat elapsedMs) = show_nat elapsedMs"
    by (rule csv_field_id) (simp add: show_nat_def show_digits_no_comma)
  show ?thesis
    unfolding step_row_def
    by (simp add: csv_fields_row e csv_field_id size_text_no_comma delta_text_no_comma
        deltaPct_text_no_comma)
qed

lemma original_row_fields:
  "csv_fields (original_row inputAbs origSize) =
     [csv_field inputAbs, ''ORIGINAL'', size_text origSize, size_text origSize,
      ''0'', ''0.00'', [], ''ok'', []]"
  unfolding original_row_def
  by (simp add: csv_fields_row csv_field_id size_text_no_comma)

lemma csv_field_eq_plain:
  "csv_field v = w \<Longrightarrow> CHR '' '' \<notin> set w \<Longrightarrow> v = w"
proof (induction v arbitrary: w)
  case Nil
  then show ?case by (simp add: csv_field_def)
next
  case (Cons c cs)
  from Cons.prems obtain d ds where w: "w = d # ds" by (cases w) (auto simp: csv_field_def)
  with Cons.prems have "csv_field cs = ds" "CHR '' '' \<notin> set ds"
    and d: "(if c = CHR '','' then CHR '' '' else c) = d" "d \<noteq> CHR '' ''"
    by (auto simp: csv_field_def)
  with Cons.IH [of ds] have "cs = ds" by simp
  moreover from d have "c = d" by (auto split: if_splits)
  ultimately show ?case using w by simp
qed

lemma step_rows_stage: "r \<in> step_rows st \<Longrightarrow> csv_fields r ! 1 = csv_field (step_name st)"
  by (auto simp: step_rows_def step_row_fields)


section \<open>Facts about a failing step and about the worker\<close>







lemma try_block_status:
  "oc_status (fst (try_block ev cfg st inExt outFile src h)) =
     (case fst (run_tool ev cfg st inExt outFile src h) of Inl e \<Rightarrow> ''error'' | Inr t \<Rightarrow> ''ok'')"
  by (cases "run_tool ev cfg st inExt outFile src h")
     (simp add: try_block_def fileSize_def split: sum.splits)

lemma profile_missing_args: "profile_missing cfg st key \<Longrightarrow> profile_args cfg st key = []"
  by (auto simp: profile_missing_def profile_args_def split: option.splits)

subsection \<open>The worker pool\<close>

lemma concat_update:
  "w < length ws \<Longrightarrow>
   mset (concat (map f (ws[w := v]))) + mset (f (ws ! w)) = mset (concat (map f ws)) + mset (f v)"
proof (induction ws arbitrary: w)
  case Nil
  then show ?case by simp
next
  case (Cons a ws)
  show ?case
  proof (cases w)
    case 0
    then show ?thesis by simp
  next
    case (Suc k)
    with Cons.prems have "k < length ws" by simp
    from Cons.IH [OF this] Suc show ?thesis by (simp add: ac_simps)
  qed
qed

lemma filter_update:
  "w < length ws \<Longrightarrow>
   length (filter P (ws[w := v])) + (if P (ws ! w) then 1 else 0) =
   length (filter P ws) + (if P v then 1 else 0)"
proof (induction ws arbitrary: w)
  case Nil
  then show ?case by simp
next
  case (Cons a ws)
  show ?case
  proof (cases w)
    case 0
    then show ?thesis by simp
  next
    case (Suc k)
    with Cons.prems have "k < length ws" by simp
    from Cons.IH [OF this] Suc show ?thesis by simp
  qed
qed

lemma sched_inv_init: "sched_inv tasks N (sched_init N)"
  by (simp add: sched_inv_def sched_init_def in_flight_def)

lemma in_flight_update:
  assumes "w < length (workers s)"
  shows "mset (in_flight (s\<lparr>workers := (workers s)[w := v]\<rparr>)) + mset (busy_of (workers s ! w)) =
         mset (in_flight s) + mset (busy_of v)"
  using concat_update [OF assms, of busy_of v] by (simp add: in_flight_def)

lemma worker_step_inv:
  assumes inv: "sched_inv tasks N s" and step: "worker_step tasks w ok s = Some s'"
  shows "sched_inv tasks N s'"
proof -
  from step have w: "w < length (workers s)" by (auto simp: worker_step_def split: if_splits)
  from inv have len: "length (workers s) = N"
    and st: "started s = map (\<lambda>i. (i, tasks ! i)) [0..<min (idx s) (length tasks)]"
    and ix: "idx s = min (idx s) (length tasks) + length (filter (\<lambda>w. w = Finished) (workers s))"
    and ms: "mset (map fst (ended s)) + mset (in_flight s) = mset [0..<min (idx s) (length tasks)]"
    by (auto simp: sched_inv_def)
  show ?thesis
  proof (cases "workers s ! w")
    case Ready
    show ?thesis
    proof (cases "length tasks \<le> idx s")
      case True
      with Ready step w have s': "s' = s\<lparr>idx := idx s + 1, workers := (workers s)[w := Finished]\<rparr>"
        by (simp add: worker_step_def Let_def)
      have fl: "mset (in_flight s') = mset (in_flight s)"
        using concat_update [OF w, of busy_of Finished] Ready by (simp add: s' in_flight_def)
      have fin: "length (filter (\<lambda>w. w = Finished) (workers s')) =
          length (filter (\<lambda>w. w = Finished) (workers s)) + 1"
        using filter_update [OF w, of "\<lambda>w. w = Finished" Finished] Ready by (simp add: s')
      from True have m: "min (idx s) (length tasks) = length tasks"
        "min (idx s + 1) (length tasks) = length tasks" by simp_all
      show ?thesis
        unfolding sched_inv_def
        using len st ix ms fl fin m by (simp add: s')
    next
      case False
      with Ready step w have s': "s' = s\<lparr>idx := idx s + 1, workers := (workers s)[w := Busy (idx s)],
          started := started s @ [(idx s, tasks ! idx s)]\<rparr>"
        by (simp add: worker_step_def Let_def)
      have fl: "mset (in_flight s') = mset (in_flight s) + {#idx s#}"
        using concat_update [OF w, of busy_of "Busy (idx s)"] Ready by (simp add: s' in_flight_def)
      have fin: "length (filter (\<lambda>w. w = Finished) (workers s')) =
          length (filter (\<lambda>w. w = Finished) (workers s))"
        using filter_update [OF w, of "\<lambda>w. w = Finished" "Busy (idx s)"] Ready by (simp add: s')
      from False have m: "min (idx s) (length tasks) = idx s"
        "min (idx s + 1) (length tasks) = idx s + 1" by simp_all
      show ?thesis
        unfolding sched_inv_def
        using len st ix ms fl fin m by (simp add: s')
    qed
  next
    case (Busy i)
    with step w have s': "s' = s\<lparr>workers := (workers s)[w := Ready], ended := ended s @ [(i, ok)]\<rparr>"
      by (simp add: worker_step_def)
    have fl: "mset (in_flight s') + {#i#} = mset (in_flight s)"
      using concat_update [OF w, of busy_of Ready] Busy by (simp add: s' in_flight_def)
    have fin: "length (filter (\<lambda>w. w = Finished) (workers s')) =
        length (filter (\<lambda>w. w = Finished) (workers s))"
      using filter_update [OF w, of "\<lambda>w. w = Finished" Ready] Busy by (simp add: s')
    have "mset (map fst (ended s')) + mset (in_flight s') =
        mset (map fst (ended s)) + (mset (in_flight s') + {#i#})"
      by (simp add: s')
    with fl ms have ms': "mset (map fst (ended s')) + mset (in_flight s') =
        mset [0..<min (idx s) (length tasks)]" by simp
    show ?thesis
      unfolding sched_inv_def
      using len st ix ms' fin by (simp add: s')
  next
    case Finished
    with step w show ?thesis by (simp add: worker_step_def)
  qed
qed

lemma run_sched_inv:
  "sched_inv tasks N s \<Longrightarrow> run_sched tasks evs s = Some s' \<Longrightarrow> sched_inv tasks N s'"
proof (induction evs arbitrary: s)
  case Nil
  then show ?case by simp
next
  case (Cons ev evs)
  obtain w ok where ev: "ev = (w, ok)" by (cases ev)
  from Cons.prems(2) ev obtain s1 where s1: "worker_step tasks w ok s = Some s1"
    "run_sched tasks evs s1 = Some s'"
    by (auto split: option.splits)
  from worker_step_inv [OF Cons.prems(1) s1(1)] have "sched_inv tasks N s1" .
  from Cons.IH [OF this s1(2)] show ?case .
qed

lemma worker_step_steps_left:
  assumes "worker_step tasks w ok s = Some s'"
  shows "steps_left tasks s = steps_left tasks s' + 1"
proof -
  from assms have w: "w < length (workers s)" by (auto simp: worker_step_def split: if_splits)
  show ?thesis
  proof (cases "workers s ! w")
    case Ready
    show ?thesis
    proof (cases "length tasks \<le> idx s")
      case True
      with Ready assms w have s': "s' = s\<lparr>idx := idx s + 1, workers := (workers s)[w := Finished]\<rparr>"
        by (simp add: worker_step_def Let_def)
      have fl: "length (in_flight s') = length (in_flight s)"
        using concat_update [OF w, of busy_of Finished, THEN arg_cong, of size] Ready
        by (simp add: s' in_flight_def)
      have rd: "length (filter (\<lambda>w. w = Ready) (workers s')) + 1 =
          length (filter (\<lambda>w. w = Ready) (workers s))"
        using filter_update [OF w, of "\<lambda>w. w = Ready" Finished] Ready by (simp add: s')
      show ?thesis using True fl rd by (simp add: steps_left_def s')
    next
      case False
      with Ready assms w have s': "s' = s\<lparr>idx := idx s + 1, workers := (workers s)[w := Busy (idx s)],
          started := started s @ [(idx s, tasks ! idx s)]\<rparr>"
        by (simp add: worker_step_def Let_def)
      have fl: "length (in_flight s') = length (in_flight s) + 1"
        using concat_update [OF w, of busy_of "Busy (idx s)", THEN arg_cong, of size] Ready
        by (simp add: s' in_flight_def)
      have rd: "length (filter (\<lambda>w. w = Ready) (workers s')) + 1 =
          length (filter (\<lambda>w. w = Ready) (workers s))"
        using filter_update [OF w, of "\<lambda>w. w = Ready" "Busy (idx s)"] Ready by (simp add: s')
      show ?thesis using False fl rd by (simp add: steps_left_def s')
    qed
  next
    case (Busy i)
    with assms w have s': "s' = s\<lparr>workers := (workers s)[w := Ready], ended := ended s @ [(i, ok)]\<rparr>"
      by (simp add: worker_step_def)
    have fl: "length (in_flight s') + 1 = length (in_flight s)"
      using concat_update [OF w, of busy_of Ready, THEN arg_cong, of size] Busy
      by (simp add: s' in_flight_def)
    have rd: "length (filter (\<lambda>w. w = Ready) (workers s')) =
        length (filter (\<lambda>w. w = Ready) (workers s)) + 1"
      using filter_update [OF w, of "\<lambda>w. w = Ready" Ready] Busy by (simp add: s')
    show ?thesis using fl rd by (simp add: steps_left_def s')
  next
    case Finished
    with assms w show ?thesis by (simp add: worker_step_def)
  qed
qed

lemma run_sched_steps_left:
  "run_sched tasks evs s = Some s' \<Longrightarrow> steps_left tasks s = steps_left tasks s' + length evs"
proof (induction evs arbitrary: s)
  case Nil
  then show ?case by simp
next
  case (Cons ev evs)
  obtain w ok where ev: "ev = (w, ok)" by (cases ev)
  from Cons.prems ev obtain s1 where s1: "worker_step tasks w ok s = Some s1"
    "run_sched tasks evs s1 = Some s'"
    by (auto split: option.splits)
  from worker_step_steps_left [OF s1(1)] Cons.IH [OF s1(2)] show ?case by simp
qed

lemma run_sched_append:
  "run_sched tasks (xs @ ys) s =
     (case run_sched tasks xs s of None \<Rightarrow> None | Some s1 \<Rightarrow> run_sched tasks ys s1)"
proof (induction xs arbitrary: s)
  case Nil
  then show ?case by simp
next
  case (Cons x xs)
  obtain w ok where "x = (w, ok)" by (cases x)
  with Cons show ?case by (simp split: option.splits)
qed

lemma progress:
  assumes "\<not> all_finished s"
  shows "\<exists>w s'. worker_step tasks w True s = Some s'"
proof -
  from assms obtain w where w: "w < length (workers s)" "workers s ! w \<noteq> Finished"
    by (auto simp: all_finished_def list_all_length)
  then have "worker_step tasks w True s \<noteq> None"
    by (cases "workers s ! w") (simp_all add: worker_step_def Let_def)
  then show ?thesis by blast
qed

lemma can_complete:
  "\<exists>evs s'. run_sched tasks evs s = Some s' \<and> all_finished s'"
proof (induction "steps_left tasks s" arbitrary: s rule: less_induct)
  case less
  show ?case
  proof (cases "all_finished s")
    case True
    then have "run_sched tasks [] s = Some s \<and> all_finished s" by simp
    then show ?thesis by blast
  next
    case False
    from progress [OF this] obtain w s1 where s1: "worker_step tasks w True s = Some s1" by blast
    from worker_step_steps_left [OF s1] have "steps_left tasks s1 < steps_left tasks s" by simp
    from less [OF this] obtain evs s' where e: "run_sched tasks evs s1 = Some s'" "all_finished s'"
      by blast
    from s1 e(1) have "run_sched tasks ((w, True) # evs) s = Some s'" by simp
    with e(2) show ?thesis by blast
  qed
qed

lemma all_finished_idle:
  "list_all (\<lambda>w. w = Finished) ws \<Longrightarrow>
   concat (map busy_of ws) = [] \<and> filter (\<lambda>w. w = Ready) ws = [] \<and>
   length (filter (\<lambda>w. w = Finished) ws) = length ws"
  by (induction ws) auto

lemma steps_left_init: "steps_left tasks (sched_init N) = 2 * length tasks + N"
  by (simp add: steps_left_def sched_init_def in_flight_def)

subsection \<open>C1: every task is processed exactly once\<close>

text \<open>
  Claim C1. Take any number \<open>N \<ge> 1\<close> of workers and any state that the pool
  reaches from its start, whatever the interleaving of the workers and whichever
  invocations of \<open>processOne\<close> fail. The invocations made so far are those of the
  first positions of the task list, in order and one per position, each claimed
  by incrementing the shared index; every claimed position is either being
  processed by one worker or has ended once, and none is in both or twice in
  either. The number of steps taken plus the number of steps left is
  \<open>2 * length tasks + N\<close>. When every worker has left its loop (the run ends),
  \<open>processOne\<close> has been invoked on exactly the task list, every position has
  ended exactly once, and each worker has found the list exhausted once, so that
  the index is \<open>length tasks + N\<close>. Every run can be continued to such an end.
\<close>

theorem C1_every_task_once:
  assumes N: "1 \<le> N" and run: "run_sched tasks evs (sched_init N) = Some s"
  shows "started s = map (\<lambda>i. (i, tasks ! i)) [0..<min (idx s) (length tasks)] \<and>
         mset (map fst (ended s)) + mset (in_flight s) = mset [0..<length (started s)] \<and>
         distinct (map fst (ended s) @ in_flight s) \<and>
         length evs + steps_left tasks s = 2 * length tasks + N \<and>
         (all_finished s \<longrightarrow>
            map snd (started s) = tasks \<and>
            mset (map fst (ended s)) = mset [0..<length tasks] \<and>
            idx s = length tasks + N \<and>
            length evs = 2 * length tasks + N) \<and>
         (\<exists>evs' s'. run_sched tasks (evs @ evs') (sched_init N) = Some s' \<and> all_finished s')"
proof -
  from run_sched_inv [OF sched_inv_init run] have inv: "sched_inv tasks N s" .
  then have len: "length (workers s) = N"
    and st: "started s = map (\<lambda>i. (i, tasks ! i)) [0..<min (idx s) (length tasks)]"
    and ix: "idx s = min (idx s) (length tasks) + length (filter (\<lambda>w. w = Finished) (workers s))"
    and ms: "mset (map fst (ended s)) + mset (in_flight s) = mset [0..<min (idx s) (length tasks)]"
    by (auto simp: sched_inv_def)
  from st have ls: "length (started s) = min (idx s) (length tasks)" by simp
  from ms ls have ms': "mset (map fst (ended s)) + mset (in_flight s) = mset [0..<length (started s)]"
    by simp
  have "mset (map fst (ended s) @ in_flight s) = mset [0..<length (started s)]"
    using ms' by simp
  from mset_eq_imp_distinct_iff [OF this]
  have dist: "distinct (map fst (ended s) @ in_flight s)" by simp
  from run_sched_steps_left [OF run] have steps: "length evs + steps_left tasks s = 2 * length tasks + N"
    by (simp add: steps_left_init)
  have fin: "map snd (started s) = tasks \<and>
            mset (map fst (ended s)) = mset [0..<length tasks] \<and>
            idx s = length tasks + N \<and>
            length evs = 2 * length tasks + N" if af: "all_finished s"
  proof -
    from af have idle: "in_flight s = []" "filter (\<lambda>w. w = Ready) (workers s) = []"
      "length (filter (\<lambda>w. w = Finished) (workers s)) = N"
      using all_finished_idle [of "workers s"] len by (simp_all add: all_finished_def in_flight_def)
    from ix idle(3) N have ge: "length tasks \<le> idx s" by (simp add: min_def split: if_splits)
    then have m: "min (idx s) (length tasks) = length tasks" by simp
    from st m have "map snd (started s) = map (\<lambda>i. tasks ! i) [0..<length tasks]"
      by (simp add: comp_def)
    then have 1: "map snd (started s) = tasks" by (simp add: map_nth)
    from ms m idle(1) have 2: "mset (map fst (ended s)) = mset [0..<length tasks]" by simp
    from ix m idle(3) have 3: "idx s = length tasks + N" by simp
    from steps ge idle have 4: "length evs = 2 * length tasks + N" by (simp add: steps_left_def)
    from 1 2 3 4 show ?thesis by (intro conjI)
  qed
  from can_complete [of tasks s] obtain evs' s' where
    c: "run_sched tasks evs' s = Some s'" "all_finished s'" by blast
  from run c(1) have "run_sched tasks (evs @ evs') (sched_init N) = Some s'"
    by (simp add: run_sched_append)
  with c(2) have ex: "\<exists>evs' s'. run_sched tasks (evs @ evs') (sched_init N) = Some s' \<and> all_finished s'"
    by blast
  from fin have fin': "all_finished s \<longrightarrow>
            map snd (started s) = tasks \<and>
            mset (map fst (ended s)) = mset [0..<length tasks] \<and>
            idx s = length tasks + N \<and>
            length evs = 2 * length tasks + N" by blast
  from st ms' dist steps fin' ex show ?thesis by (intro conjI)
qed

theorem C1_every_task_once_witness:
  "run_sched ex_tasks ex_schedule (sched_init 2) = Some ex_final \<and>
   all_finished ex_final \<and>
   map snd (started ex_final) = ex_tasks \<and>
   mset (map fst (ended ex_final)) = mset [0..<length ex_tasks] \<and>
   idx ex_final = length ex_tasks + 2 \<and>
   length ex_schedule = 2 * length ex_tasks + 2"
proof -
  have r: "run_sched ex_tasks ex_schedule (sched_init 2) = Some ex_final" by code_simp
  have f: "all_finished ex_final" by code_simp
  have n: "(1::nat) \<le> 2" by simp
  note inst = C1_every_task_once [OF n r]
  from inst have "all_finished ex_final \<longrightarrow>
            map snd (started ex_final) = ex_tasks \<and>
            mset (map fst (ended ex_final)) = mset [0..<length ex_tasks] \<and>
            idx ex_final = length ex_tasks + 2 \<and>
            length ex_schedule = 2 * length ex_tasks + 2" by blast
  with f r show ?thesis by blast
qed

subsection \<open>C10: a missing profile\<close>

text \<open>
  Claim C10. When the profile named by a step is absent from the configuration,
  or has no entry for the tool of the step, the tool is still run, with the
  input and output path arguments only, and the status of the step is that of
  this tool run: \<open>error\<close> exactly when the run of the tool is rejected, so nothing
  is raised or recorded for the missing profile. In a dry run no tool is called
  and no profile is read: the step copies the file, and its status is that of
  the copy.
\<close>

theorem C10_missing_profile:
  fixes cfg :: config and st :: step and ev :: env
  shows "(\<not> dryRun cfg \<and> step_name st = ''pngquant'' \<and> profile_missing cfg st ''pngquant'' \<longrightarrow>
            run_tool ev cfg st inExt outFile src h =
              (exec_result ev h (tool_pngquant cfg) [JStr ''--output'', JStr outFile, JStr src],
               h @ [ExecFile (tool_pngquant cfg) [JStr ''--output'', JStr outFile, JStr src]]) \<and>
            oc_status (fst (try_block ev cfg st inExt outFile src h)) =
              (case exec_result ev h (tool_pngquant cfg) [JStr ''--output'', JStr outFile, JStr src] of
                 Inl e \<Rightarrow> ''error'' | Inr t \<Rightarrow> ''ok'')) \<and>
         (\<not> dryRun cfg \<and> step_name st = ''mozjpeg'' \<and> profile_missing cfg st ''mozjpeg'' \<longrightarrow>
            run_tool ev cfg st inExt outFile src h =
              (exec_result ev h (tool_mozjpeg cfg) [JStr ''-outfile'', JStr outFile, JStr src],
               h @ [ExecFile (tool_mozjpeg cfg) [JStr ''-outfile'', JStr outFile, JStr src]]) \<and>
            oc_status (fst (try_block ev cfg st inExt outFile src h)) =
              (case exec_result ev h (tool_mozjpeg cfg) [JStr ''-outfile'', JStr outFile, JStr src] of
                 Inl e \<Rightarrow> ''error'' | Inr t \<Rightarrow> ''ok'')) \<and>
         (\<not> dryRun cfg \<and> step_name st = ''imagemagick_compress'' \<and>
          profile_missing cfg st (if inExt = ''png'' then ''imagemagick_png'' else ''imagemagick_jpg'') \<longrightarrow>
            run_tool ev cfg st inExt outFile src h =
              (exec_result ev h (tool_magick cfg) [JStr ''convert'', JStr src, JStr outFile],
               h @ [ExecFile (tool_magick cfg) [JStr ''convert'', JStr src, JStr outFile]]) \<and>
            oc_status (fst (try_block ev cfg st inExt outFile src h)) =
              (case exec_result ev h (tool_magick cfg) [JStr ''convert'', JStr src, JStr outFile] of
                 Inl e \<Rightarrow> ''error'' | Inr t \<Rightarrow> ''ok'')) \<and>
         (dryRun cfg \<longrightarrow>
            run_tool ev cfg st inExt outFile src h =
              ((case copy_result ev h src outFile of None \<Rightarrow> Inr 0 | Some e \<Rightarrow> Inl e),
               h @ [CopyFile src outFile]) \<and>
            oc_status (fst (try_block ev cfg st inExt outFile src h)) =
              (case copy_result ev h src outFile of None \<Rightarrow> ''ok'' | Some e \<Rightarrow> ''error''))"
proof -
  have png: "run_tool ev cfg st inExt outFile src h =
              (exec_result ev h (tool_pngquant cfg) [JStr ''--output'', JStr outFile, JStr src],
               h @ [ExecFile (tool_pngquant cfg) [JStr ''--output'', JStr outFile, JStr src]])"
    if "\<not> dryRun cfg" "step_name st = ''pngquant''" "profile_missing cfg st ''pngquant''"
    using that profile_missing_args [OF that(3)]
    by (simp add: run_tool_def execFileAsync_def pngquant_args_def)
  have moz: "run_tool ev cfg st inExt outFile src h =
              (exec_result ev h (tool_mozjpeg cfg) [JStr ''-outfile'', JStr outFile, JStr src],
               h @ [ExecFile (tool_mozjpeg cfg) [JStr ''-outfile'', JStr outFile, JStr src]])"
    if "\<not> dryRun cfg" "step_name st = ''mozjpeg''" "profile_missing cfg st ''mozjpeg''"
    using that profile_missing_args [OF that(3)]
    by (simp add: run_tool_def execFileAsync_def mozjpeg_args_def)
  have mag: "run_tool ev cfg st inExt outFile src h =
              (exec_result ev h (tool_magick cfg) [JStr ''convert'', JStr src, JStr outFile],
               h @ [ExecFile (tool_magick cfg) [JStr ''convert'', JStr src, JStr outFile]])"
    if "\<not> dryRun cfg" "step_name st = ''imagemagick_compress''"
      "profile_missing cfg st (if inExt = ''png'' then ''imagemagick_png'' else ''imagemagick_jpg'')"
    using that profile_missing_args [OF that(3)]
    by (auto simp: run_tool_def execFileAsync_def magick_args_def Let_def split: if_splits)
  have dry: "run_tool ev cfg st inExt outFile src h =
              ((case copy_result ev h src outFile of None \<Rightarrow> Inr 0 | Some e \<Rightarrow> Inl e),
               h @ [CopyFile src outFile])" if "dryRun cfg"
    using that by (simp add: run_tool_def copyFile_def split: option.splits)
  have dst: "oc_status (fst (try_block ev cfg st inExt outFile src h)) =
              (case copy_result ev h src outFile of None \<Rightarrow> ''ok'' | Some e \<Rightarrow> ''error'')"
    if "dryRun cfg"
    using dry [OF that] by (simp add: try_block_status split: option.splits)
  show ?thesis
    using png moz mag dry dst by (simp add: try_block_status)
qed

theorem C10_missing_profile_witness:
  "\<not> dryRun ex_cfg \<and> step_name moz_step = ''mozjpeg'' \<and>
   profile_missing ex_cfg moz_step ''mozjpeg'' \<and>
   run_tool ex_env ex_cfg moz_step ''png'' ''/out/a_m.jpg'' ''/in/a.png'' [] =
     (Inr 12, [ExecFile ''cjpeg'' [JStr ''-outfile'', JStr ''/out/a_m.jpg'', JStr ''/in/a.png'']]) \<and>
   oc_status (fst (try_block ex_env ex_cfg moz_step ''png'' ''/out/a_m.jpg'' ''/in/a.png'' [])) = ''ok'' \<and>
   step_name (pipeline ex_cfg ! 2) = ''imagemagick_compress'' \<and>
   profile_missing ex_cfg (pipeline ex_cfg ! 2) ''imagemagick_jpg'' \<and>
   run_tool ex_env ex_cfg (pipeline ex_cfg ! 2) ''jpg'' ''/out/b_im.jpg'' ''/in/b.jpg'' [] =
     (Inr 12, [ExecFile ''magick'' [JStr ''convert'', JStr ''/in/b.jpg'', JStr ''/out/b_im.jpg'']]) \<and>
   dryRun (ex_cfg\<lparr>dryRun := True\<rparr>) \<and>
   run_tool ex_env (ex_cfg\<lparr>dryRun := True\<rparr>) moz_step ''png'' ''/out/a_m.jpg'' ''/in/a.png'' [] =
     (Inr 0, [CopyFile ''/in/a.png'' ''/out/a_m.jpg''])"
proof -
  have d: "\<not> dryRun ex_cfg" by code_simp
  have m: "step_name moz_step = ''mozjpeg'' \<and> profile_missing ex_cfg moz_step ''mozjpeg''"
    by code_simp
  have i: "step_name (pipeline ex_cfg ! 2) = ''imagemagick_compress'' \<and>
      profile_missing ex_cfg (pipeline ex_cfg ! 2) ''imagemagick_jpg''"
    by code_simp
  have e: "exec_result ex_env [] c a = Inr 12" for c a by (simp add: ex_env_def)
  have c: "copy_result ex_env [] a b = None" for a b by (simp add: ex_env_def)
  have t: "tool_mozjpeg ex_cfg = ''cjpeg''" "tool_magick ex_cfg = ''magick''" by code_simp+
  from C10_missing_profile [where cfg = ex_cfg and st = moz_step and inExt = "''png''" and ev = ex_env
      and outFile = "''/out/a_m.jpg''" and src = "''/in/a.png''" and h = "[]"]
    d m e t
  have 1: "run_tool ex_env ex_cfg moz_step ''png'' ''/out/a_m.jpg'' ''/in/a.png'' [] =
     (Inr 12, [ExecFile ''cjpeg'' [JStr ''-outfile'', JStr ''/out/a_m.jpg'', JStr ''/in/a.png'']]) \<and>
     oc_status (fst (try_block ex_env ex_cfg moz_step ''png'' ''/out/a_m.jpg'' ''/in/a.png'' [])) = ''ok''"
    by simp
  from C10_missing_profile [where cfg = ex_cfg and st = "pipeline ex_cfg ! 2" and inExt = "''jpg''"
      and ev = ex_env and outFile = "''/out/b_im.jpg''" and src = "''/in/b.jpg''" and h = "[]"] d i e t
  have 2: "run_tool ex_env ex_cfg (pipeline ex_cfg ! 2) ''jpg'' ''/out/b_im.jpg'' ''/in/b.jpg'' [] =
     (Inr 12, [ExecFile ''magick'' [JStr ''convert'', JStr ''/in/b.jpg'', JStr ''/out/b_im.jpg'']])"
    by simp
  have d3: "dryRun (ex_cfg\<lparr>dryRun := True\<rparr>)" by simp
  from C10_missing_profile [where cfg = "ex_cfg\<lparr>dryRun := True\<rparr>" and st = moz_step
      and inExt = "''png''" and ev = ex_env
      and outFile = "''/out/a_m.jpg''" and src = "''/in/a.png''" and h = "[]"] c
  have 3: "run_tool ex_env (ex_cfg\<lparr>dryRun := True\<rparr>) moz_step ''png'' ''/out/a_m.jpg'' ''/in/a.png'' [] =
     (Inr 0, [CopyFile ''/in/a.png'' ''/out/a_m.jpg''])"
    by simp
  from d m i 1 2 d3 3 show ?thesis by blast
qed

subsection \<open>C2: a failing step\<close>




subsection \<open>C3: the output path of a step\<close>

text \<open>
  Claim C3, as stated, fails at four inputs. The extension taken from the input
  is lowered by \<open>extOf\<close>: for \<open>/in/A.PNG\<close> the tool derives \<open>/out/A_q.png\<close> where
  the stated formula gives \<open>/out/A_q.PNG\<close>. A forced extension that is the empty
  string counts as none, since \<open>forcedExt || extOf(rel)\<close> takes the second operand
  for it. Base name and extension are read from the path relative to the input
  root, not from the input path: when the input path is the input root itself
  the relative path is empty, and so are both. And the result depends on the
  working directory when the input root is a relative path, since
  \<open>path.relative\<close> resolves it there: the same arguments give \<open>/out/a_q.png\<close> in
  the directory \<open>/\<close> and \<open>/in/a_q.png\<close> in the directory \<open>/home\<close>.
\<close>

theorem C3_spec_outPath_counterexample:
  "outPathForStep ''/'' ''/in/A.PNG'' ''/in'' ''/out'' False ''_q'' None = ''/out/A_q.png'' \<and>
   spec_outPath ''/'' ''/in/A.PNG'' ''/in'' ''/out'' False ''_q'' None = ''/out/A_q.PNG'' \<and>
   outPathForStep ''/'' ''/in/a.png'' ''/in'' ''/out'' False ''_q'' (Some []) = ''/out/a_q.png'' \<and>
   spec_outPath ''/'' ''/in/a.png'' ''/in'' ''/out'' False ''_q'' (Some []) = ''/out/a_q.'' \<and>
   outPathForStep ''/'' ''/in/a.png'' ''/in/a.png'' ''/out'' False ''_q'' None = ''/out/_q.'' \<and>
   spec_outPath ''/'' ''/in/a.png'' ''/in/a.png'' ''/out'' False ''_q'' None = ''/out/a_q.png'' \<and>
   outPathForStep ''/'' ''/in/a.png'' ''in'' ''/out'' True ''_q'' None = ''/out/a_q.png'' \<and>
   outPathForStep ''/home'' ''/in/a.png'' ''in'' ''/out'' True ''_q'' None = ''/in/a_q.png''"
  by code_simp

text \<open>
  Claim C3, amended. For every input path, input root, output root,
  preserve-tree flag, step suffix and optional forced extension, the result of
  \<open>outPathForStep\<close> is: the output root joined with the directory of the input
  relative to the input root (empty if preserve-tree is false), joined with a
  file name made of the base name of the input's path relative to the input
  root with its extension stripped and any path separators inside it replaced by
  \<open>__\<close>, followed by the step suffix, then a dot, then the forced extension if
  given and not the empty string, else the original extension of that relative
  path in lower case. For an input file under the input root, the base name and
  the extension of the relative path are those of the input path itself. For an
  absolute input path and an absolute input root the function is pure: the
  result is the same in every working directory, so identical arguments always
  yield the identical path.
\<close>

theorem C3_outPathForStep:
  fixes wd wd' inputAbs inRoot outRoot :: string
  defines "rel \<equiv> path_relative wd inRoot inputAbs"
  shows "outPathForStep wd inputAbs inRoot outRoot keepTree stepSuffix forcedExt =
           path_join
             [outRoot,
              if keepTree then path_dirname rel else [],
              js_join ''__'' (js_split path_sep (baseNameNoExt rel)) @ stepSuffix @ ''.'' @
                (case forcedExt of
                   None \<Rightarrow> toLowerCase (original_ext rel)
                 | Some e \<Rightarrow> if e = [] then toLowerCase (original_ext rel) else e)] \<and>
         (under_root inRoot inputAbs \<longrightarrow>
            baseNameNoExt rel = baseNameNoExt inputAbs \<and>
            original_ext rel = original_ext inputAbs) \<and>
         (isAbsolute inRoot \<and> isAbsolute inputAbs \<longrightarrow>
            outPathForStep wd' inputAbs inRoot outRoot keepTree stepSuffix forcedExt =
            outPathForStep wd inputAbs inRoot outRoot keepTree stepSuffix forcedExt)"
proof -
  have 1: "outPathForStep wd inputAbs inRoot outRoot keepTree stepSuffix forcedExt =
           path_join
             [outRoot,
              if keepTree then path_dirname rel else [],
              js_join ''__'' (js_split path_sep (baseNameNoExt rel)) @ stepSuffix @ ''.'' @
                (case forcedExt of
                   None \<Rightarrow> toLowerCase (original_ext rel)
                 | Some e \<Rightarrow> if e = [] then toLowerCase (original_ext rel) else e)]"
    by (simp add: outPathForStep_def Let_def rel_def extOf_def original_ext_def
        split: option.splits)
  have 2: "baseNameNoExt rel = baseNameNoExt inputAbs \<and> original_ext rel = original_ext inputAbs"
    if ur: "under_root inRoot inputAbs"
  proof -
    have lp: "last_portion rel = last_portion inputAbs"
      unfolding rel_def by (rule under_root_last_portion(1) [OF ur])
    from baseNameNoExt_cong [OF lp] extname_cong [OF lp] show ?thesis
      by (simp add: original_ext_def)
  qed
  have 3: "outPathForStep wd' inputAbs inRoot outRoot keepTree stepSuffix forcedExt =
           outPathForStep wd inputAbs inRoot outRoot keepTree stepSuffix forcedExt"
    if "isAbsolute inRoot" "isAbsolute inputAbs"
    using relative_cwd [OF that, of wd' wd] by (simp add: outPathForStep_def)
  from 1 2 3 show ?thesis by blast
qed

theorem C3_outPathForStep_witness:
  "under_root ''/in'' ''/in/sub/A.PNG'' \<and>
   isAbsolute ''/in'' \<and> isAbsolute ''/in/sub/A.PNG'' \<and>
   baseNameNoExt (path_relative ''/'' ''/in'' ''/in/sub/A.PNG'') = baseNameNoExt ''/in/sub/A.PNG'' \<and>
   original_ext (path_relative ''/'' ''/in'' ''/in/sub/A.PNG'') = original_ext ''/in/sub/A.PNG'' \<and>
   outPathForStep ''/home/u'' ''/in/sub/A.PNG'' ''/in'' ''/out'' True ''_q'' None = ''/out/sub/A_q.png'' \<and>
   outPathForStep ''/'' ''/in/sub/A.PNG'' ''/in'' ''/out'' True ''_q'' None = ''/out/sub/A_q.png''"
proof -
  have u: "under_root ''/in'' ''/in/sub/A.PNG''" by code_simp
  have a: "isAbsolute ''/in'' \<and> isAbsolute ''/in/sub/A.PNG''" by code_simp
  have v: "outPathForStep ''/'' ''/in/sub/A.PNG'' ''/in'' ''/out'' True ''_q'' None = ''/out/sub/A_q.png''"
    by code_simp
  from C3_outPathForStep [where wd = "''/''" and inputAbs = "''/in/sub/A.PNG''" and inRoot = "''/in''"
      and outRoot = "''/out''" and keepTree = True and stepSuffix = "''_q''" and forcedExt = None
      and wd' = "''/home/u''"] u a v
  show ?thesis by simp
qed

subsection \<open>C4: the terminal row of a file\<close>

text \<open>
  Claim C4, as stated, fails in three ways. \<open>ensureDirFor\<close> and \<open>appendCsv\<close> are
  awaited outside the \<open>try\<close> block, so when one of them is rejected the error
  leaves \<open>processOne\<close> before the terminal row is written: with an output
  directory that cannot be created, no row at all is appended for the file, and
  with a log that rejects the append of the row of the first step, that append
  is the only one attempted. And
  the row of a step carries the name of the step as its stage, so a step that is
  itself named \<open>ORIGINAL\<close> gives the file two rows with that stage.
\<close>

theorem C4_original_row_counterexample:
  "fst (processOne ex_env_mkdir_fails ex_cfg ''/in/sub/A.PNG'' []) =
     Some \<lparr>err_stderr = None, err_message = ''EACCES''\<rparr> \<and>
   snd (processOne ex_env_mkdir_fails ex_cfg ''/in/sub/A.PNG'' []) =
     [Stat ''/in/sub/A.PNG'', Mkdir ''/out/sub''] \<and>
   appended_rows (csvPath ex_cfg)
     (new_calls [] (snd (processOne ex_env_mkdir_fails ex_cfg ''/in/sub/A.PNG'' []))) = [] \<and>
   fst (processOne ex_env_append_fails ex_cfg ''/in/sub/A.PNG'' []) =
     Some \<lparr>err_stderr = None, err_message = ''ENOSPC''\<rparr> \<and>
   appended_rows (csvPath ex_cfg)
     (new_calls [] (snd (processOne ex_env_append_fails ex_cfg ''/in/sub/A.PNG'' []))) =
     [''/out/sub/A_q.png,pngquant,100,60,-40,-40.00,12,ok,'' @ [CHR 0x22, CHR 0x22]] \<and>
   fst (processOne ex_env ex_cfg_named_original ''/in/sub/A.PNG'' []) = None \<and>
   appended_rows (csvPath ex_cfg_named_original)
     (new_calls [] (snd (processOne ex_env ex_cfg_named_original ''/in/sub/A.PNG'' []))) =
     [''/out/sub/A_o.png,ORIGINAL,100,,,,0,ok,'' @ [CHR 0x22, CHR 0x22],
      ''/in/sub/A.PNG,ORIGINAL,100,100,0,0.00,,ok,'']"
  by code_simp

text \<open>
  Claim C4, amended. For every file on which \<open>processOne\<close> ends without a
  file-level error (no directory creation and no log append is rejected), the
  rows appended for the file are rows of steps of the pipeline followed by
  exactly one terminal row, with the stage \<open>ORIGINAL\<close>, with the size of the
  original file, as \<open>fileSize\<close> returned it at the start, as both \<open>src_size\<close> and
  \<open>out_size\<close>, the delta 0 and the status \<open>ok\<close>, however many steps ran, were
  skipped or failed and whether or not per-step logging is enabled. When no step
  of the pipeline is itself named \<open>ORIGINAL\<close>, it is the only row of the file
  with that stage.
\<close>

theorem C4_original_row:
  assumes ok: "fst (processOne ev cfg f h) = None"
  shows "(\<exists>rows. appended_rows (csvPath cfg) (new_calls h (snd (processOne ev cfg f h))) =
            rows @ [original_row f (stat_result ev h f)] \<and>
            set rows \<subseteq> (\<Union>st \<in> set (pipeline cfg). step_rows st)) \<and>
         csv_fields (original_row f (stat_result ev h f)) ! 1 = ''ORIGINAL'' \<and>
         csv_fields (original_row f (stat_result ev h f)) ! 2 = size_text (stat_result ev h f) \<and>
         csv_fields (original_row f (stat_result ev h f)) ! 3 = size_text (stat_result ev h f) \<and>
         csv_fields (original_row f (stat_result ev h f)) ! 4 = ''0'' \<and>
         csv_fields (original_row f (stat_result ev h f)) ! 7 = ''ok'' \<and>
         ((\<forall>st \<in> set (pipeline cfg). step_name st \<noteq> ''ORIGINAL'') \<longrightarrow>
            length (filter (\<lambda>r. csv_fields r ! 1 = ''ORIGINAL'')
              (appended_rows (csvPath cfg) (new_calls h (snd (processOne ev cfg f h))))) = 1)"
proof -
  let ?orig = "original_row f (stat_result ev h f)"
  from processOne_shape [of ev cfg f h] obtain cs where
    rows: "set (appended_rows (csvPath cfg) cs) \<subseteq> (\<Union>st \<in> set (pipeline cfg). step_rows st)"
    and po: "processOne ev cfg f h =
          (case fst (run_steps ev cfg f (pipeline cfg) (h @ [Stat f])) of
             Some e \<Rightarrow> (Some e, h @ [Stat f] @ cs)
           | None \<Rightarrow>
               (append_result ev (h @ [Stat f] @ cs) (csvPath cfg) (?orig @ [LF]),
                h @ [Stat f] @ cs @ [AppendFile (csvPath cfg) (?orig @ [LF])]))"
    by blast
  from ok po have none: "fst (run_steps ev cfg f (pipeline cfg) (h @ [Stat f])) = None"
    by (cases "fst (run_steps ev cfg f (pipeline cfg) (h @ [Stat f]))") auto
  with po have "snd (processOne ev cfg f h) =
      h @ ([Stat f] @ cs @ [AppendFile (csvPath cfg) (?orig @ [LF])])"
    by simp
  then have app: "appended_rows (csvPath cfg) (new_calls h (snd (processOne ev cfg f h))) =
      appended_rows (csvPath cfg) cs @ [?orig]"
    by (simp add: new_calls_def appended_rows_append)
  have 1: "\<exists>rows. appended_rows (csvPath cfg) (new_calls h (snd (processOne ev cfg f h))) =
            rows @ [?orig] \<and> set rows \<subseteq> (\<Union>st \<in> set (pipeline cfg). step_rows st)"
    using app rows by blast
  have 2: "csv_fields ?orig ! 1 = ''ORIGINAL''"
    "csv_fields ?orig ! 2 = size_text (stat_result ev h f)"
    "csv_fields ?orig ! 3 = size_text (stat_result ev h f)"
    "csv_fields ?orig ! 4 = ''0''" "csv_fields ?orig ! 7 = ''ok''"
    by (simp_all add: original_row_fields)
  have 3: "length (filter (\<lambda>r. csv_fields r ! 1 = ''ORIGINAL'')
              (appended_rows (csvPath cfg) (new_calls h (snd (processOne ev cfg f h))))) = 1"
    if names: "\<forall>st \<in> set (pipeline cfg). step_name st \<noteq> ''ORIGINAL''"
  proof -
    have "csv_fields r ! 1 \<noteq> ''ORIGINAL''" if r: "r \<in> set (appended_rows (csvPath cfg) cs)" for r
    proof
      assume eq: "csv_fields r ! 1 = ''ORIGINAL''"
      from r rows obtain st where st: "st \<in> set (pipeline cfg)" "r \<in> step_rows st" by blast
      from step_rows_stage [OF st(2)] eq have "csv_field (step_name st) = ''ORIGINAL''" by simp
      then have "step_name st = ''ORIGINAL''" by (rule csv_field_eq_plain) simp
      with names st(1) show False by blast
    qed
    then have "filter (\<lambda>r. csv_fields r ! 1 = ''ORIGINAL'') (appended_rows (csvPath cfg) cs) = []"
      by (simp add: filter_empty_conv)
    then show ?thesis using app 2(1) by simp
  qed
  from 1 2 3 show ?thesis by blast
qed

theorem C4_original_row_witness:
  "fst (processOne ex_env ex_cfg ''/in/sub/A.PNG'' []) = None \<and>
   last (appended_rows (csvPath ex_cfg)
     (new_calls [] (snd (processOne ex_env ex_cfg ''/in/sub/A.PNG'' [])))) =
     ''/in/sub/A.PNG,ORIGINAL,100,100,0,0.00,,ok,'' \<and>
   length (filter (\<lambda>r. csv_fields r ! 1 = ''ORIGINAL'')
     (appended_rows (csvPath ex_cfg)
        (new_calls [] (snd (processOne ex_env ex_cfg ''/in/sub/A.PNG'' []))))) = 1"
proof -
  have ok: "fst (processOne ex_env ex_cfg ''/in/sub/A.PNG'' []) = None" by code_simp
  have names: "\<forall>st \<in> set (pipeline ex_cfg). step_name st \<noteq> ''ORIGINAL''" by code_simp
  have row: "original_row ''/in/sub/A.PNG'' (stat_result ex_env [] ''/in/sub/A.PNG'') =
      ''/in/sub/A.PNG,ORIGINAL,100,100,0,0.00,,ok,''"
    by code_simp
  from C4_original_row [OF ok] obtain rows where
    r: "appended_rows (csvPath ex_cfg)
          (new_calls [] (snd (processOne ex_env ex_cfg ''/in/sub/A.PNG'' []))) =
        rows @ [original_row ''/in/sub/A.PNG'' (stat_result ex_env [] ''/in/sub/A.PNG'')]"
    by blast
  have l: "last (appended_rows (csvPath ex_cfg)
     (new_calls [] (snd (processOne ex_env ex_cfg ''/in/sub/A.PNG'' [])))) =
     ''/in/sub/A.PNG,ORIGINAL,100,100,0,0.00,,ok,''"
    unfolding r using row by simp
  from C4_original_row [OF ok] names
  have c: "length (filter (\<lambda>r. csv_fields r ! 1 = ''ORIGINAL'')
     (appended_rows (csvPath ex_cfg)
        (new_calls [] (snd (processOne ex_env ex_cfg ''/in/sub/A.PNG'' []))))) = 1"
    by blast
  from ok l c show ?thesis by blast
qed

subsection \<open>C5: the \<open>delta_pct\<close> column\<close>

text \<open>
  The tool's example, and a percentage that falls on a tie over the rationals:
  \<open>23 / 160 * 100\<close> is \<open>14.375\<close>, but the quotient is not a binary64 number and
  the product comes out just below the tie.
\<close>

lemma pct_scenario: "pct (Some 100) 60 = ''-40.00''"
  by code_simp

lemma pct_double_rounding: "pct (Some 160) 183 = ''14.37''"
  by code_simp

text \<open>
  Claim C5, as stated, fails in three ways. The terminal row of a file has the
  constant \<open>0.00\<close> in the column, also for an empty file, whose source size is
  zero. The row of a step has the column empty when the output size is
  unavailable, whatever the source size: in the sample run, the failed step has
  the source size 100 and an empty column. And the percentage is computed in
  binary64 arithmetic: for the sizes 160 and 183 the column is \<open>14.37\<close>, where
  the percentage over the rationals, \<open>14.375\<close>, is written \<open>14.38\<close> with two
  decimals.
\<close>

theorem C5_delta_pct_counterexample:
  "last (appended_rows (csvPath ex_cfg)
     (new_calls [] (snd (processOne ex_env_empty_file ex_cfg ''/in/sub/A.PNG'' [])))) =
     ''/in/sub/A.PNG,ORIGINAL,0,0,0,0.00,,ok,'' \<and>
   csv_fields ''/in/sub/A.PNG,ORIGINAL,0,0,0,0.00,,ok,'' ! 2 = ''0'' \<and>
   csv_fields ''/in/sub/A.PNG,ORIGINAL,0,0,0,0.00,,ok,'' ! 5 = ''0.00'' \<and>
   appended_rows (csvPath ex_cfg)
     (new_calls [] (snd (processOne ex_env ex_cfg ''/in/sub/A.PNG'' []))) ! 1 =
     ''/out/sub/A_b.png,bogus,100,,,,0,error,'' @ [CHR 0x22] @ ''Unknown step: bogus'' @ [CHR 0x22] \<and>
   csv_fields (''/out/sub/A_b.png,bogus,100,,,,0,error,'' @ [CHR 0x22] @ ''Unknown step: bogus'' @
     [CHR 0x22]) ! 2 = ''100'' \<and>
   csv_fields (''/out/sub/A_b.png,bogus,100,,,,0,error,'' @ [CHR 0x22] @ ''Unknown step: bogus'' @
     [CHR 0x22]) ! 5 = [] \<and>
   deltaPct_text (Some 160) (Some 183) = ''14.37'' \<and>
   toFixed2 (exact_percent_change 160 183) = ''14.38''"
  by code_simp

text \<open>
  Claim C5, amended. Every row that \<open>processOne\<close> appends to the log is the
  terminal row of the file, whose \<open>delta_pct\<close> is the constant \<open>0.00\<close>, or the row
  of a step, whose \<open>delta_pct\<close> is the empty string when the source size is zero
  or unavailable or the output size is unavailable, and otherwise is
  \<open>((out_size - src_size) / src_size) * 100\<close> computed in binary64 arithmetic and
  written by \<open>toFixed(2)\<close>, which gives exactly two decimal places.
\<close>

theorem C5_delta_pct:
  "(\<forall>r \<in> set (appended_rows (csvPath cfg) (new_calls h (snd (processOne ev cfg f h)))).
      (r = original_row f (stat_result ev h f) \<and> csv_fields r ! 5 = ''0.00'') \<or>
      (\<exists>outFile stage before after elapsedMs status message.
         r = step_row outFile stage before after elapsedMs status message \<and>
         csv_fields r ! 2 = size_text before \<and> csv_fields r ! 3 = size_text after \<and>
         csv_fields r ! 5 =
           (case (before, after) of
              (Some b, Some a) \<Rightarrow> if b = 0 then [] else toFixed2 (percent_change b a)
            | _ \<Rightarrow> []))) \<and>
   (\<exists>ip fp. toFixed2 x = ip @ ''.'' @ fp \<and> length fp = 2)"
proof -
  let ?orig = "original_row f (stat_result ev h f)"
  from processOne_shape [of ev cfg f h] obtain cs where
    rows: "set (appended_rows (csvPath cfg) cs) \<subseteq> (\<Union>st \<in> set (pipeline cfg). step_rows st)"
    and po: "processOne ev cfg f h =
          (case fst (run_steps ev cfg f (pipeline cfg) (h @ [Stat f])) of
             Some e \<Rightarrow> (Some e, h @ [Stat f] @ cs)
           | None \<Rightarrow>
               (append_result ev (h @ [Stat f] @ cs) (csvPath cfg) (?orig @ [LF]),
                h @ [Stat f] @ cs @ [AppendFile (csvPath cfg) (?orig @ [LF])]))"
    by blast
  have sub: "set (appended_rows (csvPath cfg) (new_calls h (snd (processOne ev cfg f h))))
      \<subseteq> set (appended_rows (csvPath cfg) cs) \<union> {?orig}"
  proof (cases "fst (run_steps ev cfg f (pipeline cfg) (h @ [Stat f]))")
    case None
    with po have "snd (processOne ev cfg f h) =
        h @ ([Stat f] @ cs @ [AppendFile (csvPath cfg) (?orig @ [LF])])"
      by simp
    then show ?thesis by (simp add: new_calls_def appended_rows_append)
  next
    case (Some e)
    with po have "snd (processOne ev cfg f h) = h @ ([Stat f] @ cs)" by simp
    then show ?thesis by (auto simp: new_calls_def appended_rows_append)
  qed
  have pctf: "deltaPct_text before after =
      (case (before, after) of
         (Some b, Some a) \<Rightarrow> if b = 0 then [] else toFixed2 (percent_change b a)
       | _ \<Rightarrow> [])" for before after
    by (auto simp: deltaPct_text_def pct_def split: option.splits)
  have step: "\<exists>outFile stage before after elapsedMs status message.
         r = step_row outFile stage before after elapsedMs status message \<and>
         csv_fields r ! 2 = size_text before \<and> csv_fields r ! 3 = size_text after \<and>
         csv_fields r ! 5 =
           (case (before, after) of
              (Some b, Some a) \<Rightarrow> if b = 0 then [] else toFixed2 (percent_change b a)
            | _ \<Rightarrow> [])"
    if "r \<in> step_rows st" for r st
  proof -
    from that obtain outFile before after elapsedMs status message where
      r: "r = step_row outFile (step_name st) before after elapsedMs status message"
      unfolding step_rows_def by blast
    have a: "csv_fields r ! 2 = size_text before" "csv_fields r ! 3 = size_text after"
      "csv_fields r ! 5 = deltaPct_text before after"
      unfolding r by (simp_all add: step_row_fields)
    have "r = step_row outFile (step_name st) before after elapsedMs status message \<and>
        csv_fields r ! 2 = size_text before \<and> csv_fields r ! 3 = size_text after \<and>
        csv_fields r ! 5 =
           (case (before, after) of
              (Some b, Some a) \<Rightarrow> if b = 0 then [] else toFixed2 (percent_change b a)
            | _ \<Rightarrow> [])"
      using r a(1,2) a(3) [unfolded pctf] by (intro conjI)
    then show ?thesis by (intro exI)
  qed
  have orig: "csv_fields ?orig ! 5 = ''0.00''" by (simp add: original_row_fields)
  have 1: "\<forall>r \<in> set (appended_rows (csvPath cfg) (new_calls h (snd (processOne ev cfg f h)))).
      (r = ?orig \<and> csv_fields r ! 5 = ''0.00'') \<or>
      (\<exists>outFile stage before after elapsedMs status message.
         r = step_row outFile stage before after elapsedMs status message \<and>
         csv_fields r ! 2 = size_text before \<and> csv_fields r ! 3 = size_text after \<and>
         csv_fields r ! 5 =
           (case (before, after) of
              (Some b, Some a) \<Rightarrow> if b = 0 then [] else toFixed2 (percent_change b a)
            | _ \<Rightarrow> []))"
  proof
    fix r assume "r \<in> set (appended_rows (csvPath cfg) (new_calls h (snd (processOne ev cfg f h))))"
    with sub consider "r = ?orig" | "r \<in> set (appended_rows (csvPath cfg) cs)" by blast
    then show "(r = ?orig \<and> csv_fields r ! 5 = ''0.00'') \<or>
      (\<exists>outFile stage before after elapsedMs status message.
         r = step_row outFile stage before after elapsedMs status message \<and>
         csv_fields r ! 2 = size_text before \<and> csv_fields r ! 3 = size_text after \<and>
         csv_fields r ! 5 =
           (case (before, after) of
              (Some b, Some a) \<Rightarrow> if b = 0 then [] else toFixed2 (percent_change b a)
            | _ \<Rightarrow> []))"
    proof cases
      case 1
      with orig show ?thesis by simp
    next
      case 2
      with rows obtain st where "r \<in> step_rows st" by blast
      from step [OF this] show ?thesis by blast
    qed
  qed
  from 1 show ?thesis by (rule conjI) (rule toFixed2_two_decimals)
qed

theorem C5_delta_pct_witness:
  "appended_rows (csvPath ex_cfg) (new_calls [] (snd (processOne ex_env ex_cfg ''/in/sub/A.PNG'' []))) =
     [''/out/sub/A_q.png,pngquant,100,60,-40,-40.00,12,ok,'' @ [CHR 0x22, CHR 0x22],
      ''/out/sub/A_b.png,bogus,100,,,,0,error,'' @ [CHR 0x22] @ ''Unknown step: bogus'' @ [CHR 0x22],
      ''/out/sub/A_im.png,imagemagick_compress,100,,,,12,ok,'' @ [CHR 0x22, CHR 0x22],
      ''/in/sub/A.PNG,ORIGINAL,100,100,0,0.00,,ok,''] \<and>
   ((''/out/sub/A_q.png,pngquant,100,60,-40,-40.00,12,ok,'' @ [CHR 0x22, CHR 0x22] =
       original_row ''/in/sub/A.PNG'' (stat_result ex_env [] ''/in/sub/A.PNG'') \<and>
     csv_fields (''/out/sub/A_q.png,pngquant,100,60,-40,-40.00,12,ok,'' @ [CHR 0x22, CHR 0x22]) ! 5 =
       ''0.00'') \<or>
    (\<exists>outFile stage before after elapsedMs status message.
       ''/out/sub/A_q.png,pngquant,100,60,-40,-40.00,12,ok,'' @ [CHR 0x22, CHR 0x22] =
         step_row outFile stage before after elapsedMs status message \<and>
       csv_fields (''/out/sub/A_q.png,pngquant,100,60,-40,-40.00,12,ok,'' @ [CHR 0x22, CHR 0x22]) ! 2 =
         size_text before \<and>
       csv_fields (''/out/sub/A_q.png,pngquant,100,60,-40,-40.00,12,ok,'' @ [CHR 0x22, CHR 0x22]) ! 3 =
         size_text after \<and>
       csv_fields (''/out/sub/A_q.png,pngquant,100,60,-40,-40.00,12,ok,'' @ [CHR 0x22, CHR 0x22]) ! 5 =
         (case (before, after) of
            (Some b, Some a) \<Rightarrow> if b = 0 then [] else toFixed2 (percent_change b a)
          | _ \<Rightarrow> []))) \<and>
   toFixed2 (percent_change 100 60) = ''-40.00''"
proof -
  let ?r = "''/out/sub/A_q.png,pngquant,100,60,-40,-40.00,12,ok,'' @ [CHR 0x22, CHR 0x22]"
  have rows: "appended_rows (csvPath ex_cfg)
      (new_calls [] (snd (processOne ex_env ex_cfg ''/in/sub/A.PNG'' []))) =
     [''/out/sub/A_q.png,pngquant,100,60,-40,-40.00,12,ok,'' @ [CHR 0x22, CHR 0x22],
      ''/out/sub/A_b.png,bogus,100,,,,0,error,'' @ [CHR 0x22] @ ''Unknown step: bogus'' @ [CHR 0x22],
      ''/out/sub/A_im.png,imagemagick_compress,100,,,,12,ok,'' @ [CHR 0x22, CHR 0x22],
      ''/in/sub/A.PNG,ORIGINAL,100,100,0,0.00,,ok,'']"
    by code_simp
  have mem: "?r \<in> set (appended_rows (csvPath ex_cfg)
      (new_calls [] (snd (processOne ex_env ex_cfg ''/in/sub/A.PNG'' []))))"
    unfolding rows by simp
  have v: "toFixed2 (percent_change 100 60) = ''-40.00''" by code_simp
  from C5_delta_pct [where cfg = ex_cfg and h = "[]" and ev = ex_env and f = "''/in/sub/A.PNG''"]
  have all: "\<forall>r \<in> set (appended_rows (csvPath ex_cfg)
               (new_calls [] (snd (processOne ex_env ex_cfg ''/in/sub/A.PNG'' [])))).
      (r = original_row ''/in/sub/A.PNG'' (stat_result ex_env [] ''/in/sub/A.PNG'') \<and>
       csv_fields r ! 5 = ''0.00'') \<or>
      (\<exists>outFile stage before after elapsedMs status message.
         r = step_row outFile stage before after elapsedMs status message \<and>
         csv_fields r ! 2 = size_text before \<and> csv_fields r ! 3 = size_text after \<and>
         csv_fields r ! 5 =
           (case (before, after) of
              (Some b, Some a) \<Rightarrow> if b = 0 then [] else toFixed2 (percent_change b a)
            | _ \<Rightarrow> []))"
    by (rule conjunct1)
  from bspec [OF all mem] rows v show ?thesis by (intro conjI)
qed

subsection \<open>C6: which files become tasks\<close>

text \<open>
  Claim C6. An enumerated file is in the task list exactly when its extension in
  lower case is in the allow-list and no exclude pattern occurs in its path
  relative to the input root. The extension of the file is lowered before the
  comparison; the patterns are compared character by character, as contiguous
  substrings.
\<close>

theorem C6_discover:
  fixes ev :: env and cfg :: config
  defines "rel \<equiv> \<lambda>f. path_relative (cwd ev) (path_resolve (cwd ev) (inputDir cfg)) f"
  shows "(f \<in> set (discover ev cfg walked) \<longleftrightarrow>
            f \<in> set walked \<and>
            toLowerCase (original_ext (rel f)) \<in> set (includeExt (selection cfg)) \<and>
            (\<forall>pat \<in> set (excludePatterns (selection cfg)). \<not> includes_str (rel f) pat)) \<and>
         (includes_str s pat \<longleftrightarrow> (\<exists>pre post. s = pre @ pat @ post))"
  by (auto simp: discover_def matchFile_def rel_def extOf_def original_ext_def list_ex_iff
      includes_str_iff)

theorem C6_discover_witness:
  "''/in/sub/A.PNG'' \<in> set (discover ex_env ex_cfg [''/in/sub/A.PNG'', ''/in/tmp/b.png'', ''/in/c.txt'']) \<and>
   ''/in/tmp/b.png'' \<notin> set (discover ex_env ex_cfg [''/in/sub/A.PNG'', ''/in/tmp/b.png'', ''/in/c.txt'']) \<and>
   ''/in/c.txt'' \<notin> set (discover ex_env ex_cfg [''/in/sub/A.PNG'', ''/in/tmp/b.png'', ''/in/c.txt''])"
proof -
  let ?rel = "\<lambda>f. path_relative (cwd ex_env) (path_resolve (cwd ex_env) (inputDir ex_cfg)) f"
  let ?w = "[''/in/sub/A.PNG'', ''/in/tmp/b.png'', ''/in/c.txt'']"
  have a: "''/in/sub/A.PNG'' \<in> set ?w \<and>
      toLowerCase (original_ext (?rel ''/in/sub/A.PNG'')) \<in> set (includeExt (selection ex_cfg)) \<and>
      (\<forall>pat \<in> set (excludePatterns (selection ex_cfg)). \<not> includes_str (?rel ''/in/sub/A.PNG'') pat)"
    by code_simp
  have b: "\<not> (\<forall>pat \<in> set (excludePatterns (selection ex_cfg)). \<not> includes_str (?rel ''/in/tmp/b.png'') pat)"
    by code_simp
  have c: "toLowerCase (original_ext (?rel ''/in/c.txt'')) \<notin> set (includeExt (selection ex_cfg))"
    by code_simp
  from C6_discover [of "''/in/sub/A.PNG''" ex_env ex_cfg ?w] a
  have 1: "''/in/sub/A.PNG'' \<in> set (discover ex_env ex_cfg ?w)" by blast
  from C6_discover [of "''/in/tmp/b.png''" ex_env ex_cfg ?w] b
  have 2: "''/in/tmp/b.png'' \<notin> set (discover ex_env ex_cfg ?w)" by blast
  from C6_discover [of "''/in/c.txt''" ex_env ex_cfg ?w] c
  have 3: "''/in/c.txt'' \<notin> set (discover ex_env ex_cfg ?w)" by blast
  from 1 2 3 show ?thesis by blast
qed

subsection \<open>C7: every step reads the original file\<close>

text \<open>
  Claim C7. The calls of \<open>processOne\<close> on a file extend the history, and every one
  of them that copies a file or runs a tool reads the original input path: it is
  the source of the copy of a dry run, the last argument of \<open>pngquant\<close> and
  \<open>mozjpeg\<close>, and the argument after \<open>convert\<close> of ImageMagick, at every position
  of the pipeline and whatever the earlier steps did.
\<close>

theorem C7_source_is_original:
  "take (length h) (snd (processOne ev cfg f h)) = h \<and>
   (\<forall>c \<in> set (new_calls h (snd (processOne ev cfg f h))). reads_from f c)"
proof -
  from processOne_shape [of ev cfg f h] obtain cs where
    cs: "\<forall>c \<in> set cs. reads_from f c"
    and po: "processOne ev cfg f h =
          (case fst (run_steps ev cfg f (pipeline cfg) (h @ [Stat f])) of
             Some e \<Rightarrow> (Some e, h @ [Stat f] @ cs)
           | None \<Rightarrow>
               (append_result ev (h @ [Stat f] @ cs) (csvPath cfg)
                  (original_row f (stat_result ev h f) @ [LF]),
                h @ [Stat f] @ cs @
                  [AppendFile (csvPath cfg) (original_row f (stat_result ev h f) @ [LF])]))"
    by blast
  show ?thesis
  proof (cases "fst (run_steps ev cfg f (pipeline cfg) (h @ [Stat f]))")
    case None
    with po have "snd (processOne ev cfg f h) =
        h @ ([Stat f] @ cs @ [AppendFile (csvPath cfg) (original_row f (stat_result ev h f) @ [LF])])"
      by simp
    then show ?thesis using cs by (auto simp: new_calls_def)
  next
    case (Some e)
    with po have "snd (processOne ev cfg f h) = h @ ([Stat f] @ cs)" by simp
    then show ?thesis using cs by (auto simp: new_calls_def)
  qed
qed

theorem C7_source_is_original_witness:
  "ExecFile ''pngquant''
     [JStr ''--speed'', JNum 1, JStr ''--output'', JStr ''/out/sub/A_q.png'', JStr ''/in/sub/A.PNG'']
     \<in> set (new_calls [] (snd (processOne ex_env ex_cfg ''/in/sub/A.PNG'' []))) \<and>
   reads_from ''/in/sub/A.PNG''
     (ExecFile ''pngquant''
        [JStr ''--speed'', JNum 1, JStr ''--output'', JStr ''/out/sub/A_q.png'', JStr ''/in/sub/A.PNG'']) \<and>
   ExecFile ''magick''
     [JStr ''convert'', JStr ''/in/sub/A.PNG'', JStr ''-strip'', JNum 3, JStr ''x:/out/sub/A_im.png'']
     \<in> set (new_calls [] (snd (processOne ex_env ex_cfg ''/in/sub/A.PNG'' []))) \<and>
   reads_from ''/in/sub/A.PNG''
     (ExecFile ''magick''
        [JStr ''convert'', JStr ''/in/sub/A.PNG'', JStr ''-strip'', JNum 3, JStr ''x:/out/sub/A_im.png'']) \<and>
   CopyFile ''/in/sub/A.PNG'' ''/out/sub/A_im.png''
     \<in> set (new_calls [] (snd (processOne ex_env (ex_cfg\<lparr>dryRun := True\<rparr>) ''/in/sub/A.PNG'' []))) \<and>
   reads_from ''/in/sub/A.PNG'' (CopyFile ''/in/sub/A.PNG'' ''/out/sub/A_im.png'')"
proof -
  have 1: "ExecFile ''pngquant''
     [JStr ''--speed'', JNum 1, JStr ''--output'', JStr ''/out/sub/A_q.png'', JStr ''/in/sub/A.PNG'']
     \<in> set (new_calls [] (snd (processOne ex_env ex_cfg ''/in/sub/A.PNG'' [])))"
    by code_simp
  have 2: "ExecFile ''magick''
     [JStr ''convert'', JStr ''/in/sub/A.PNG'', JStr ''-strip'', JNum 3, JStr ''x:/out/sub/A_im.png'']
     \<in> set (new_calls [] (snd (processOne ex_env ex_cfg ''/in/sub/A.PNG'' [])))"
    by code_simp
  have 3: "CopyFile ''/in/sub/A.PNG'' ''/out/sub/A_im.png''
     \<in> set (new_calls [] (snd (processOne ex_env (ex_cfg\<lparr>dryRun := True\<rparr>) ''/in/sub/A.PNG'' [])))"
    by code_simp
  note a = C7_source_is_original [where h = "[]" and ev = ex_env and cfg = ex_cfg
      and f = "''/in/sub/A.PNG''", THEN conjunct2]
  note b = C7_source_is_original [where h = "[]" and ev = ex_env and cfg = "ex_cfg\<lparr>dryRun := True\<rparr>"
      and f = "''/in/sub/A.PNG''", THEN conjunct2]
  from 1 2 3 bspec [OF a 1] bspec [OF a 2] bspec [OF b 3] show ?thesis by (intro conjI)
qed

subsection \<open>C8: the format prefix of ImageMagick\<close>

text \<open>
  Claim C8. For the \<open>imagemagick_compress\<close> step, the profile arguments that are
  strings ending with a colon are left out of the argument list, and the last of
  them, if there is one, is put directly in front of the output path, which is
  the last argument of the tool. The arguments of \<open>pngquant\<close> and \<open>mozjpeg\<close> are
  the whole profile, unchanged, followed by the output option, the output file
  and the source.
\<close>

theorem C8_format_prefix:
  fixes cfg :: config and st :: step and ev :: env
  defines "prof \<equiv> \<lambda>inExt. if inExt = ''png'' then profile_args cfg st ''imagemagick_png''
                           else profile_args cfg st ''imagemagick_jpg''"
  shows "magick_args cfg st inExt outFile src =
           [JStr ''convert'', JStr src] @ filter (\<lambda>a. \<not> is_format_prefix a) (prof inExt) @
           [JStr ((if format_prefixes (prof inExt) = [] then []
                   else last (format_prefixes (prof inExt))) @ outFile)] \<and>
         (is_format_prefix a \<longleftrightarrow> (\<exists>s. a = JStr s \<and> s \<noteq> [] \<and> last s = CHR '':'')) \<and>
         (\<not> dryRun cfg \<and> step_name st = ''imagemagick_compress'' \<longrightarrow>
            run_tool ev cfg st inExt outFile src h =
              (exec_result ev h (tool_magick cfg) (magick_args cfg st inExt outFile src),
               h @ [ExecFile (tool_magick cfg) (magick_args cfg st inExt outFile src)])) \<and>
         (\<not> dryRun cfg \<and> step_name st = ''pngquant'' \<longrightarrow>
            run_tool ev cfg st inExt outFile src h =
              (exec_result ev h (tool_pngquant cfg)
                 (profile_args cfg st ''pngquant'' @ [JStr ''--output'', JStr outFile, JStr src]),
               h @ [ExecFile (tool_pngquant cfg)
                 (profile_args cfg st ''pngquant'' @ [JStr ''--output'', JStr outFile, JStr src])])) \<and>
         (\<not> dryRun cfg \<and> step_name st = ''mozjpeg'' \<longrightarrow>
            run_tool ev cfg st inExt outFile src h =
              (exec_result ev h (tool_mozjpeg cfg)
                 (profile_args cfg st ''mozjpeg'' @ [JStr ''-outfile'', JStr outFile, JStr src]),
               h @ [ExecFile (tool_mozjpeg cfg)
                 (profile_args cfg st ''mozjpeg'' @ [JStr ''-outfile'', JStr outFile, JStr src])]))"
proof -
  have 1: "magick_args cfg st inExt outFile src =
           [JStr ''convert'', JStr src] @ filter (\<lambda>a. \<not> is_format_prefix a) (prof inExt) @
           [JStr ((if format_prefixes (prof inExt) = [] then []
                   else last (format_prefixes (prof inExt))) @ outFile)]"
    by (simp add: magick_args_def Let_def scan_profile_eq prof_def)
  have 2: "is_format_prefix a \<longleftrightarrow> (\<exists>s. a = JStr s \<and> s \<noteq> [] \<and> last s = CHR '':'')"
    by (rule is_format_prefix_iff)
  have 3: "run_tool ev cfg st inExt outFile src h =
              (exec_result ev h (tool_magick cfg) (magick_args cfg st inExt outFile src),
               h @ [ExecFile (tool_magick cfg) (magick_args cfg st inExt outFile src)])"
    if "\<not> dryRun cfg \<and> step_name st = ''imagemagick_compress''"
    using that by (simp add: run_tool_def execFileAsync_def)
  have 4: "run_tool ev cfg st inExt outFile src h =
              (exec_result ev h (tool_pngquant cfg)
                 (profile_args cfg st ''pngquant'' @ [JStr ''--output'', JStr outFile, JStr src]),
               h @ [ExecFile (tool_pngquant cfg)
                 (profile_args cfg st ''pngquant'' @ [JStr ''--output'', JStr outFile, JStr src])])"
    if "\<not> dryRun cfg \<and> step_name st = ''pngquant''"
    using that by (simp add: run_tool_def execFileAsync_def pngquant_args_def)
  have 5: "run_tool ev cfg st inExt outFile src h =
              (exec_result ev h (tool_mozjpeg cfg)
                 (profile_args cfg st ''mozjpeg'' @ [JStr ''-outfile'', JStr outFile, JStr src]),
               h @ [ExecFile (tool_mozjpeg cfg)
                 (profile_args cfg st ''mozjpeg'' @ [JStr ''-outfile'', JStr outFile, JStr src])])"
    if "\<not> dryRun cfg \<and> step_name st = ''mozjpeg''"
    using that by (simp add: run_tool_def execFileAsync_def mozjpeg_args_def)
  from 1 2 3 4 5 show ?thesis by blast
qed

theorem C8_format_prefix_witness:
  "\<not> dryRun ex_cfg \<and> step_name (pipeline ex_cfg ! 2) = ''imagemagick_compress'' \<and>
   snd (run_tool ex_env ex_cfg (pipeline ex_cfg ! 2) ''png'' ''/out/a_im.png'' ''/in/a.png'' []) =
     [ExecFile ''magick''
        [JStr ''convert'', JStr ''/in/a.png'', JStr ''-strip'', JNum 3, JStr ''x:/out/a_im.png'']] \<and>
   step_name (hd (pipeline ex_cfg)) = ''pngquant'' \<and>
   snd (run_tool ex_env ex_cfg (hd (pipeline ex_cfg)) ''png'' ''/out/a_q.png'' ''/in/a.png'' []) =
     [ExecFile ''pngquant''
        [JStr ''--speed'', JNum 1, JStr ''--output'', JStr ''/out/a_q.png'', JStr ''/in/a.png'']]"
proof -
  have h1: "\<not> dryRun ex_cfg \<and> step_name (pipeline ex_cfg ! 2) = ''imagemagick_compress''"
    by code_simp
  have h2: "\<not> dryRun ex_cfg \<and> step_name (hd (pipeline ex_cfg)) = ''pngquant''"
    by code_simp
  have m: "magick_args ex_cfg (pipeline ex_cfg ! 2) ''png'' ''/out/a_im.png'' ''/in/a.png'' =
      [JStr ''convert'', JStr ''/in/a.png'', JStr ''-strip'', JNum 3, JStr ''x:/out/a_im.png'']"
    by code_simp
  have t: "tool_magick ex_cfg = ''magick''" "tool_pngquant ex_cfg = ''pngquant''"
    by code_simp+
  have p: "profile_args ex_cfg (hd (pipeline ex_cfg)) ''pngquant'' = [JStr ''--speed'', JNum 1]"
    by code_simp
  from C8_format_prefix [where cfg = ex_cfg and st = "pipeline ex_cfg ! 2" and inExt = "''png''"
      and outFile = "''/out/a_im.png''" and src = "''/in/a.png''" and ev = ex_env and h = "[]"] h1 m t
  have a: "snd (run_tool ex_env ex_cfg (pipeline ex_cfg ! 2) ''png'' ''/out/a_im.png'' ''/in/a.png'' []) =
     [ExecFile ''magick''
        [JStr ''convert'', JStr ''/in/a.png'', JStr ''-strip'', JNum 3, JStr ''x:/out/a_im.png'']]"
    by simp
  from C8_format_prefix [where cfg = ex_cfg and st = "hd (pipeline ex_cfg)" and inExt = "''png''"
      and outFile = "''/out/a_q.png''" and src = "''/in/a.png''" and ev = ex_env and h = "[]"] h2 p t
  have b: "snd (run_tool ex_env ex_cfg (hd (pipeline ex_cfg)) ''png'' ''/out/a_q.png'' ''/in/a.png'' []) =
     [ExecFile ''pngquant''
        [JStr ''--speed'', JNum 1, JStr ''--output'', JStr ''/out/a_q.png'', JStr ''/in/a.png'']]"
    by simp
  from h1 h2 a b show ?thesis by blast
qed

subsection \<open>C9: the forced extension\<close>

text \<open>
  Claim C9, as stated, fails for a step suffix that holds a path separator: the
  suffix is put into the file name as it is (line 42), so with the suffix \<open>/\<close>
  the \<open>mozjpeg\<close> step derives \<open>/out/sub/A/.jpg\<close> for \<open>/in/sub/A.PNG\<close>, a path whose
  last portion is the dot file \<open>.jpg\<close> and whose extension is empty.
\<close>

theorem C9_forced_extension_counterexample:
  "step_name (moz_step\<lparr>step_suffix := Some ''/''\<rparr>) = ''mozjpeg'' \<and>
   forcedExt_of (moz_step\<lparr>step_suffix := Some ''/''\<rparr>) = Some ''jpg'' \<and>
   under_root (path_resolve (cwd ex_env) (inputDir ex_cfg)) ''/in/sub/A.PNG'' \<and>
   step_outFile ex_env ex_cfg ''/in/sub/A.PNG'' (moz_step\<lparr>step_suffix := Some ''/''\<rparr>) =
     ''/out/sub/A/.jpg'' \<and>
   path_extname ''/out/sub/A/.jpg'' = [] \<and>
   extOf ''/out/sub/A/.jpg'' = []"
  by code_simp

text \<open>
  Claim C9, amended. For a file under the input root and a step whose suffix
  holds no path separator: the forced extension is \<open>jpg\<close> exactly when the name of
  the step is \<open>mozjpeg\<close>, and the extension of the derived output path is then
  \<open>.jpg\<close>; for a step of any other name it is the extension of the input file in
  lower case.
\<close>

theorem C9_forced_extension:
  fixes ev :: env and cfg :: config and st :: step and f :: string
  defines "sfx \<equiv> (case step_suffix st of None \<Rightarrow> [] | Some x \<Rightarrow> x)"
  assumes ur: "under_root (path_resolve (cwd ev) (inputDir cfg)) f"
    and sfx: "path_sep \<notin> set sfx"
  shows "forcedExt_of st = (if step_name st = ''mozjpeg'' then Some ''jpg'' else None) \<and>
         path_extname (step_outFile ev cfg f st) =
           ''.'' @ (if step_name st = ''mozjpeg'' then ''jpg'' else extOf f)"
proof -
  define rel where "rel = path_relative (cwd ev) (path_resolve (cwd ev) (inputDir cfg)) f"
  define ext where "ext = (if step_name st = ''mozjpeg'' then ''jpg'' else extOf rel)"
  define nm where "nm = baseNameNoExt rel"
  define fn where "fn = nm @ sfx @ ''.'' @ ext"
  note lp = under_root_last_portion [OF ur]
  have lp_rel: "last_portion rel = last_portion f" using lp(1) [of "cwd ev"] by (simp add: rel_def)
  have nm_ne: "nm \<noteq> []"
    using lp(2) lp_rel by (simp add: nm_def baseNameNoExt_not_Nil)
  have nm_sep: "path_sep \<notin> set nm" by (simp add: nm_def baseNameNoExt_no_sep)
  have ext_sep: "path_sep \<notin> set ext"
    by (simp add: ext_def extOf_no_sep) (simp add: path_sep_def)
  have ext_dot: "CHR ''.'' \<notin> set ext" by (simp add: ext_def extOf_no_dot)
  have nodot: "\<not> (nm @ sfx = ''.'' \<and> ext = [])"
  proof
    assume a: "nm @ sfx = ''.'' \<and> ext = []"
    then have e: "extOf rel = []" by (auto simp: ext_def split: if_splits)
    from a nm_ne have "nm = ''.''" by (cases nm) auto
    with e name_dot_ext [of rel] lp(3,4) lp_rel show False by (simp add: nm_def)
  qed
  have fn_ne: "fn \<noteq> []" by (simp add: fn_def)
  have fn_sep: "path_sep \<notin> set fn"
    using nm_sep sfx ext_sep by (simp add: fn_def) (simp add: path_sep_def)
  have fn_dot: "fn \<noteq> ''.''"
  proof
    assume "fn = ''.''"
    then have "length (nm @ sfx @ ''.'' @ ext) = 1" by (simp add: fn_def)
    with nm_ne show False by simp
  qed
  have fn_dotdot: "fn \<noteq> ''..''"
  proof
    assume eq: "fn = ''..''"
    then have "length (nm @ sfx @ ''.'' @ ext) = 2" by (simp add: fn_def)
    then have l: "length nm + length sfx + length ext = 1" by simp
    from nm_ne obtain c cs where nm: "nm = c # cs" by (cases nm) auto
    with l have "cs = []" "sfx = []" "ext = []" by auto
    with eq nm nodot show False by (simp add: fn_def)
  qed
  have out: "step_outFile ev cfg f st =
      path_join [path_resolve (cwd ev) (outputDir cfg),
                 if preserveTree cfg then path_dirname rel else [], fn]"
    by (simp add: step_outFile_eq fn_def nm_def ext_def rel_def sfx_def)
  have "last_portion (step_outFile ev cfg f st) = fn"
    unfolding out using fn_ne fn_sep fn_dot fn_dotdot by (rule last_portion_path_join)
  then have lpo: "last_portion (step_outFile ev cfg f st) = (nm @ sfx) @ ''.'' @ ext"
    by (simp add: fn_def)
  have "nm @ sfx \<noteq> []" using nm_ne by simp
  from extname_filename [OF this ext_dot nodot lpo]
  have "path_extname (step_outFile ev cfg f st) = ''.'' @ ext" .
  moreover have "extOf rel = extOf f" using lp_rel by (rule extOf_cong)
  ultimately show ?thesis by (simp add: ext_def forcedExt_of_def)
qed

theorem C9_forced_extension_witness:
  "under_root (path_resolve (cwd ex_env) (inputDir ex_cfg)) ''/in/sub/A.PNG'' \<and>
   path_extname (step_outFile ex_env ex_cfg ''/in/sub/A.PNG'' moz_step) = ''.jpg'' \<and>
   path_extname (step_outFile ex_env ex_cfg ''/in/sub/A.PNG'' (hd (pipeline ex_cfg))) = ''.png''"
proof -
  have u: "under_root (path_resolve (cwd ex_env) (inputDir ex_cfg)) ''/in/sub/A.PNG''"
    by code_simp
  have s1: "path_sep \<notin> set (case step_suffix moz_step of None \<Rightarrow> [] | Some x \<Rightarrow> x)"
    by code_simp
  have s2: "path_sep \<notin> set (case step_suffix (hd (pipeline ex_cfg)) of None \<Rightarrow> [] | Some x \<Rightarrow> x)"
    by code_simp
  have n1: "step_name moz_step = ''mozjpeg''" by code_simp
  have n2: "step_name (hd (pipeline ex_cfg)) \<noteq> ''mozjpeg''" by code_simp
  have e: "extOf ''/in/sub/A.PNG'' = ''png''" by code_simp
  from C9_forced_extension [OF u s1] C9_forced_extension [OF u s2] u n1 n2 e
  show ?thesis by simp
qed

end
